theory Spec2Isabelle
  imports Main "HOL-Library.List_Lexorder" "HOL-Library.Product_Lexorder"
begin

section \<open>Text\<close>

text \<open>
  Python's \<^verbatim>\<open>str\<close> is a sequence of Unicode code points, so a text is a list of
  code points. The character classes are the ones of the Unicode 14.0 database that
  CPython 3.11 ships: \<^verbatim>\<open>str.isspace\<close> (also the class \<^verbatim>\<open>\s\<close> of \<^verbatim>\<open>re\<close> and
  what \<^verbatim>\<open>str.strip\<close> removes), \<^verbatim>\<open>str.isdecimal\<close> (the class \<^verbatim>\<open>\d\<close> of \<^verbatim>\<open>re\<close>)
  and \<^verbatim>\<open>str.isdigit\<close>.
\<close>

type_synonym pystr = "nat list"

abbreviation (input) asc :: "string \<Rightarrow> pystr" where
  "asc s \<equiv> map of_char s"

definition in_ranges :: "(nat \<times> nat) list \<Rightarrow> nat \<Rightarrow> bool" where
  "in_ranges rs c = list_ex (\<lambda>(lo, hi). lo \<le> c \<and> c \<le> hi) rs"

definition space_ranges :: "(nat \<times> nat) list" where
  "space_ranges = [(0x9, 0xD), (0x1C, 0x20), (0x85, 0x85), (0xA0, 0xA0), (0x1680, 0x1680),
     (0x2000, 0x200A), (0x2028, 0x2029), (0x202F, 0x202F), (0x205F, 0x205F), (0x3000, 0x3000)]"

definition py_isspace :: "nat \<Rightarrow> bool" where
  "py_isspace c = in_ranges space_ranges c"

text \<open>Every block of decimal digits has ten code points, but for the mathematical digits.\<close>

definition decimal_starts :: "nat list" where
  "decimal_starts = [0x30, 0x660, 0x6F0, 0x7C0, 0x966, 0x9E6, 0xA66, 0xAE6, 0xB66, 0xBE6,
     0xC66, 0xCE6, 0xD66, 0xDE6, 0xE50, 0xED0, 0xF20, 0x1040, 0x1090, 0x17E0, 0x1810, 0x1946,
     0x19D0, 0x1A80, 0x1A90, 0x1B50, 0x1BB0, 0x1C40, 0x1C50, 0xA620, 0xA8D0, 0xA900, 0xA9D0,
     0xA9F0, 0xAA50, 0xABF0, 0xFF10, 0x104A0, 0x10D30, 0x11066, 0x110F0, 0x11136, 0x111D0,
     0x112F0, 0x11450, 0x114D0, 0x11650, 0x116C0, 0x11730, 0x118E0, 0x11950, 0x11C50, 0x11D50,
     0x11DA0, 0x16A60, 0x16AC0, 0x16B50, 0x1E140, 0x1E2F0, 0x1E950, 0x1FBF0]"

definition py_isdecimal :: "nat \<Rightarrow> bool" where
  "py_isdecimal c =
     (if c < 0x80 then 0x30 \<le> c \<and> c \<le> 0x39
      else in_ranges (map (\<lambda>b. (b, b + 9)) decimal_starts) c \<or> (0x1D7CE \<le> c \<and> c \<le> 0x1D7FF))"

definition other_digit_ranges :: "(nat \<times> nat) list" where
  "other_digit_ranges = [(0xB2, 0xB3), (0xB9, 0xB9), (0x1369, 0x1371), (0x19DA, 0x19DA),
     (0x2070, 0x2070), (0x2074, 0x2079), (0x2080, 0x2089), (0x2460, 0x2468), (0x2474, 0x247C),
     (0x2488, 0x2490), (0x24EA, 0x24EA), (0x24F5, 0x24FD), (0x24FF, 0x24FF), (0x2776, 0x277E),
     (0x2780, 0x2788), (0x278A, 0x2792), (0x10A40, 0x10A43), (0x10E60, 0x10E68),
     (0x11052, 0x1105A), (0x1F100, 0x1F10A)]"

definition py_isdigit_char :: "nat \<Rightarrow> bool" where
  "py_isdigit_char c = (py_isdecimal c \<or> (0x80 \<le> c \<and> in_ranges other_digit_ranges c))"

text \<open>\<^verbatim>\<open>str.isdigit()\<close>: every character is a digit and there is at least one.\<close>

definition py_isdigit :: "pystr \<Rightarrow> bool" where
  "py_isdigit s = (s \<noteq> [] \<and> list_all py_isdigit_char s)"

text \<open>\<^verbatim>\<open>str.strip()\<close> with no argument removes leading and trailing whitespace.\<close>

definition py_lstrip :: "pystr \<Rightarrow> pystr" where
  "py_lstrip s = dropWhile py_isspace s"

definition py_rstrip :: "pystr \<Rightarrow> pystr" where
  "py_rstrip s = rev (dropWhile py_isspace (rev s))"

definition py_strip :: "pystr \<Rightarrow> pystr" where
  "py_strip s = py_rstrip (py_lstrip s)"

text \<open>\<^verbatim>\<open>needle in hay\<close> on strings, and \<^verbatim>\<open>hay.startswith(needle)\<close>.\<close>

fun starts_with :: "pystr \<Rightarrow> pystr \<Rightarrow> bool" where
  "starts_with [] hay = True"
| "starts_with (n # ns) [] = False"
| "starts_with (n # ns) (h # hs) = (n = h \<and> starts_with ns hs)"

fun py_contains :: "pystr \<Rightarrow> pystr \<Rightarrow> bool" where
  "py_contains needle [] = (needle = [])"
| "py_contains needle (h # hs) = (starts_with needle (h # hs) \<or> py_contains needle hs)"

subsection \<open>The article header pattern\<close>

text \<open>
  \<^verbatim>\<open>ARTICLE_RE = re.compile(r"^\u010clan\s+(\d+[a-zA-Z]*)", re.IGNORECASE)\<close>.
  Under \<^verbatim>\<open>IGNORECASE\<close> a literal matches the code points whose lower case is the
  literal's: U+010C and U+010D for the first letter, the capital and the small letter
  for the other three. The source only asks whether \<^verbatim>\<open>ARTICLE_RE.match\<close> succeeds: the
  four letters, then at least one whitespace character, then a decimal digit (the rest
  of the group, \<^verbatim>\<open>\d*[a-zA-Z]*\<close>, matches the empty text).
\<close>

definition article_word :: "nat list list" where
  "article_word = [[0x10C, 0x10D], [0x4C, 0x6C], [0x41, 0x61], [0x4E, 0x6E]]"

fun match_classes :: "nat list list \<Rightarrow> pystr \<Rightarrow> pystr option" where
  "match_classes [] s = Some s"
| "match_classes (cl # cls) [] = None"
| "match_classes (cl # cls) (c # cs) = (if c \<in> set cl then match_classes cls cs else None)"

definition starts_with_decimal :: "pystr \<Rightarrow> bool" where
  "starts_with_decimal s = (case s of [] \<Rightarrow> False | c # _ \<Rightarrow> py_isdecimal c)"

fun spaces_then_decimal :: "pystr \<Rightarrow> bool" where
  "spaces_then_decimal [] = False"
| "spaces_then_decimal (c # cs) =
     (py_isspace c \<and> (starts_with_decimal cs \<or> spaces_then_decimal cs))"

definition ARTICLE_RE_match :: "pystr \<Rightarrow> bool" where
  "ARTICLE_RE_match s =
     (case match_classes article_word s of None \<Rightarrow> False | Some rest \<Rightarrow> spaces_then_decimal rest)"

section \<open>Documents\<close>

text \<open>
  A document body is the sequence of its blocks in document order, as
  \<^verbatim>\<open>iter_block_items\<close> yields them: paragraphs and tables, every other child of the body
  (the closing section properties among them) skipped. A paragraph carries its
  paragraph formatting and its runs; its text is the concatenation of its runs' texts.
  Lengths are kept in English Metric Units.
\<close>

datatype alignment = LEFT | CENTER | RIGHT | JUSTIFY | OTHER_ALIGNMENT nat

text \<open>
  A line spacing is an exact length, a multiple of the line height, kept in 240ths, or a
  least length.
\<close>

datatype line_spacing = Exactly int | Multiple int | AtLeast int

record run =
  r_text :: pystr
  r_bold :: "bool option"
  r_italic :: "bool option"
  r_underline :: "nat option"
  r_font_name :: "pystr option"
  r_font_size :: "int option"
  r_color :: "(nat \<times> nat \<times> nat) option"
  r_shading :: "pystr list"

record para =
  p_style :: pystr
  p_alignment :: "alignment option"
  p_left_indent :: "int option"
  p_right_indent :: "int option"
  p_first_line_indent :: "int option"
  p_space_before :: "int option"
  p_space_after :: "int option"
  p_line_spacing :: "line_spacing option"
  p_shading :: "pystr list"
  p_runs :: "run list"

record cell =
  c_shading :: "pystr list"
  c_paragraphs :: "para list"

record table =
  t_borders :: nat
  t_rows :: "cell list list"

datatype block = Paragraph para | Table table

type_synonym document = "block list"

definition p_text :: "para \<Rightarrow> pystr" where
  "p_text p = concat (map r_text (p_runs p))"

definition iter_block_items :: "document \<Rightarrow> block list" where
  "iter_block_items doc = doc"

section \<open>The article indexer\<close>

text \<open>
  \<^verbatim>\<open>extract_articles\<close> keeps three variables over its loop: the dictionary
  \<^verbatim>\<open>articles\<close>, \<^verbatim>\<open>current_article\<close> (\<^verbatim>\<open>None\<close> at first) and \<^verbatim>\<open>start\<close>.
  \<^verbatim>\<open>if current_article:\<close> is Python's truth test: neither \<^verbatim>\<open>None\<close> nor empty.
\<close>

record ea_state =
  articles :: "pystr \<rightharpoonup> nat \<times> nat"
  current_article :: "pystr option"
  start :: nat

definition truthy :: "pystr option \<Rightarrow> bool" where
  "truthy v = (case v of None \<Rightarrow> False | Some s \<Rightarrow> s \<noteq> [])"

definition is_header :: "block \<Rightarrow> bool" where
  "is_header b = (case b of Paragraph p \<Rightarrow> ARTICLE_RE_match (py_strip (p_text p)) | Table t \<Rightarrow> False)"

definition block_text :: "block \<Rightarrow> pystr" where
  "block_text b = (case b of Paragraph p \<Rightarrow> p_text p | Table t \<Rightarrow> [])"

definition ea_init :: ea_state where
  "ea_init = \<lparr>articles = Map.empty, current_article = None, start = 0\<rparr>"

definition ea_step :: "ea_state \<Rightarrow> nat \<times> block \<Rightarrow> ea_state" where
  "ea_step st ib =
     (case ib of (i, b) \<Rightarrow>
        if is_header b then
          (let st1 = (if truthy (current_article st)
                      then st\<lparr>articles := (articles st)(the (current_article st) \<mapsto> (start st, i))\<rparr>
                      else st)
           in st1\<lparr>current_article := Some (py_strip (block_text b)), start := i\<rparr>)
        else st)"

definition ea_finish :: "nat \<Rightarrow> ea_state \<Rightarrow> (pystr \<rightharpoonup> nat \<times> nat)" where
  "ea_finish n st =
     (if truthy (current_article st)
      then (articles st)(the (current_article st) \<mapsto> (start st, n))
      else articles st)"

definition extract_articles :: "document \<Rightarrow> (pystr \<rightharpoonup> nat \<times> nat)" where
  "extract_articles doc =
     (let blocks = iter_block_items doc
      in ea_finish (length blocks) (foldl ea_step ea_init (enumerate 0 blocks)))"


text \<open>
  \<^verbatim>\<open>Document.add_paragraph(text)\<close> makes a paragraph of the default style with one
  run holding \<^verbatim>\<open>text\<close> when the text is not empty, and \<^verbatim>\<open>Paragraph.add_run(text)\<close> a run
  with no formatting of its own.
\<close>

definition new_run :: "pystr \<Rightarrow> run" where
  "new_run t = \<lparr>r_text = t, r_bold = None, r_italic = None, r_underline = None,
     r_font_name = None, r_font_size = None, r_color = None, r_shading = []\<rparr>"

definition empty_para :: para where
  "empty_para = \<lparr>p_style = asc ''Normal'', p_alignment = None, p_left_indent = None,
     p_right_indent = None, p_first_line_indent = None, p_space_before = None,
     p_space_after = None, p_line_spacing = None, p_shading = [], p_runs = []\<rparr>"

definition new_para :: "pystr \<Rightarrow> para" where
  "new_para t = (if t \<noteq> [] then empty_para\<lparr>p_runs := [new_run t]\<rparr> else empty_para)"

text \<open>The header word with its first letter U+010C, and the same word in capitals.\<close>

definition Clan :: "string \<Rightarrow> pystr" where
  "Clan s = 0x10C # asc (''lan '' @ s)"

definition CLAN :: "string \<Rightarrow> pystr" where
  "CLAN s = 0x10C # asc (''LAN '' @ s)"

text \<open>A document of twenty paragraphs with headers at the indices 0, 5 and 12.\<close>

definition art_doc :: document where
  "art_doc = map (\<lambda>t. Paragraph (new_para t))
     [Clan ''1'', asc ''a'', asc ''b'', asc ''c'', asc ''d'',
      Clan ''2'', asc ''e'', asc ''f'', asc ''g'', asc ''h'', asc ''i'', asc ''j'',
      Clan ''3'', asc ''k'', asc ''l'', asc ''m'', asc ''n'', asc ''o'', asc ''p'', asc ''q'']"

subsection \<open>The loop invariant\<close>

text \<open>
  \<open>hkey xs i\<close> is the key of the header at index \<open>i\<close> of \<open>xs\<close>, if there is one. After
  the blocks \<open>xs\<close> the dictionary holds the closed spans, each under the last closed
  header of its key, and \<open>current_article\<close> is the key of the last header.
\<close>

definition ea_run :: "block list \<Rightarrow> ea_state" where
  "ea_run xs = foldl ea_step ea_init (enumerate 0 xs)"

definition header_key :: "block \<Rightarrow> pystr" where
  "header_key b = py_strip (block_text b)"

definition hkey :: "block list \<Rightarrow> nat \<Rightarrow> pystr option" where
  "hkey xs i = (if i < length xs \<and> is_header (xs ! i) then Some (header_key (xs ! i)) else None)"

definition ea_inv :: "(nat \<Rightarrow> pystr option) \<Rightarrow> ea_state \<Rightarrow> bool" where
  "ea_inv H st \<longleftrightarrow>
     ((current_article st = None) = (\<forall>i. H i = None)) \<and>
     (\<forall>k. current_article st = Some k \<longrightarrow> H (start st) = Some k \<and> (\<forall>i. start st < i \<longrightarrow> H i = None)) \<and>
     (\<forall>k s e. articles st k = Some (s, e) \<longleftrightarrow>
        s < e \<and> H s = Some k \<and> H e \<noteq> None \<and> (\<forall>i. s < i \<and> i < e \<longrightarrow> H i = None) \<and>
        (\<forall>s'. s < s' \<and> s' < start st \<longrightarrow> H s' \<noteq> Some k))"

lemmas text_eval = py_strip_def py_lstrip_def py_rstrip_def ARTICLE_RE_match_def
  article_word_def py_isspace_def py_isdecimal_def in_ranges_def space_ranges_def
  starts_with_decimal_def

lemmas para_eval = new_para_def new_run_def empty_para_def Clan_def CLAN_def p_text_def
  block_text_def

lemmas ea_eval = extract_articles_def iter_block_items_def ea_step_def ea_init_def
  ea_finish_def truthy_def is_header_def

lemma ea_run_Nil: "ea_run [] = ea_init" by (simp add: ea_run_def)

lemma ea_run_snoc: "ea_run (xs @ [x]) = ea_step (ea_run xs) (length xs, x)"
  by (simp add: ea_run_def enumerate_append_eq)

lemma match_classes_nonempty: "match_classes (cl # cls) s = Some r \<Longrightarrow> s \<noteq> []"
  by (cases s) auto

lemma ARTICLE_RE_match_nonempty: "ARTICLE_RE_match s \<Longrightarrow> s \<noteq> []"
  by (auto simp: ARTICLE_RE_match_def article_word_def split: option.splits dest: match_classes_nonempty)

lemma is_header_key_nonempty: "is_header b \<Longrightarrow> header_key b \<noteq> []"
  by (cases b) (auto simp: is_header_def header_key_def block_text_def dest: ARTICLE_RE_match_nonempty)

lemma hkey_ge: "length xs \<le> i \<Longrightarrow> hkey xs i = None"
  by (simp add: hkey_def)

lemma hkey_snoc:
  "hkey (xs @ [x]) = (hkey xs)(length xs := (if is_header x then Some (header_key x) else None))"
  by (rule ext) (auto simp: hkey_def nth_append less_Suc_eq)

lemma hkey_nonempty: "hkey xs i = Some k \<Longrightarrow> k \<noteq> []"
  by (auto simp: hkey_def split: if_splits dest: is_header_key_nonempty)

lemma ea_inv_Nil: "ea_inv (hkey []) ea_init"
  by (simp add: ea_inv_def ea_init_def hkey_def)

lemma ea_inv_plain:
  assumes "ea_inv H st" "H n = None"
  shows "ea_inv (H(n := None)) st"
proof -
  have "H(n := None) = H" using assms(2) by (rule_tac ext) simp
  then show ?thesis using assms(1) by simp
qed

lemma ea_inv_header_first:
  assumes inv: "ea_inv H st" and cur: "current_article st = None"
  shows "ea_inv (H(n := Some kx)) (st\<lparr>current_article := Some kx, start := n\<rparr>)"
proof -
  from inv cur have none: "\<And>i. H i = None" by (simp add: ea_inv_def)
  from inv none have arts: "\<And>k. articles st k = None"
    unfolding ea_inv_def by (metis not_Some_eq old.prod.exhaust)
  show ?thesis
    unfolding ea_inv_def using none arts by auto
qed

lemma ea_inv_header_next:
  assumes inv: "ea_inv H st" and cur: "current_article st = Some k0"
    and ge: "\<And>i. n \<le> i \<Longrightarrow> H i = None"
  shows "ea_inv (H(n := Some kx))
           (st\<lparr>articles := (articles st)(k0 \<mapsto> (start st, n)), current_article := Some kx, start := n\<rparr>)"
proof -
  from inv cur have s0: "H (start st) = Some k0" and last: "\<And>i. start st < i \<Longrightarrow> H i = None"
    by (auto simp: ea_inv_def)
  from s0 ge have lt: "start st < n" by (metis not_le option.distinct(1))
  from inv have arts: "\<And>k s e. articles st k = Some (s, e) \<longleftrightarrow>
        s < e \<and> H s = Some k \<and> H e \<noteq> None \<and> (\<forall>i. s < i \<and> i < e \<longrightarrow> H i = None) \<and>
        (\<forall>s'. s < s' \<and> s' < start st \<longrightarrow> H s' \<noteq> Some k)"
    by (simp add: ea_inv_def)
  let ?H = "H(n := Some kx)"
  let ?st = "st\<lparr>articles := (articles st)(k0 \<mapsto> (start st, n)), current_article := Some kx, start := n\<rparr>"
  have A: "(current_article ?st = None) = (\<forall>i. ?H i = None)" by auto
  have B: "\<forall>k. current_article ?st = Some k \<longrightarrow> ?H (start ?st) = Some k \<and> (\<forall>i. start ?st < i \<longrightarrow> ?H i = None)"
    using ge by auto
  have C: "articles ?st k = Some (s, e) \<longleftrightarrow>
        s < e \<and> ?H s = Some k \<and> ?H e \<noteq> None \<and> (\<forall>i. s < i \<and> i < e \<longrightarrow> ?H i = None) \<and>
        (\<forall>s'. s < s' \<and> s' < start ?st \<longrightarrow> ?H s' \<noteq> Some k)" (is "?L = ?R") for k s e
  proof
    assume L: ?L
    show ?R
    proof (cases "k = k0")
      case True
      with L have se: "s = start st" "e = n" by auto
      show ?thesis using se True s0 lt last by auto
    next
      case False
      with L have old: "articles st k = Some (s, e)" by auto
      from old arts have o: "s < e" "H s = Some k" "H e \<noteq> None" "\<forall>i. s < i \<and> i < e \<longrightarrow> H i = None"
        "\<forall>s'. s < s' \<and> s' < start st \<longrightarrow> H s' \<noteq> Some k" by blast+
      from o(3) ge have en: "e < n" by (metis not_le)
      from o(3) last have es: "e \<le> start st" by (metis not_le)
      have later: "H s' \<noteq> Some k" if "s < s'" "s' < n" for s'
      proof (cases "s' < start st")
        case True then show ?thesis using o(5) that by blast
      next
        case False
        then have "s' = start st \<or> start st < s'" by auto
        then show ?thesis using s0 last \<open>k \<noteq> k0\<close> by auto
      qed
      show ?thesis using o en later by auto
    qed
  next
    assume R: ?R
    then have r: "s < e" "?H s = Some k" "?H e \<noteq> None" "\<forall>i. s < i \<and> i < e \<longrightarrow> ?H i = None"
        "\<forall>s'. s < s' \<and> s' < n \<longrightarrow> ?H s' \<noteq> Some k" by auto
    have en: "e \<le> n" using r(3) ge by (metis fun_upd_other not_le order_refl nat_le_linear)
    have sn: "s < n" using r(1) en by simp
    have Hs: "H s = Some k" using r(2) sn by auto
    show ?L
    proof (cases "e = n")
      case True
      have "s = start st"
      proof (rule ccontr)
        assume ne: "s \<noteq> start st"
        have "\<not> start st < s" using last Hs by auto
        with ne have "s < start st" by simp
        with r(4) True lt have "?H (start st) = None" by blast
        with s0 lt show False by auto
      qed
      with Hs s0 True show ?thesis by auto
    next
      case False
      with en have en': "e < n" by simp
      have He: "H e \<noteq> None" using r(3) en' by auto
      have es: "e \<le> start st" using He last by (metis not_le)
      have kk: "k \<noteq> k0"
      proof
        assume "k = k0"
        have "s < start st" using r(1) es by simp
        with r(5) lt have "?H (start st) \<noteq> Some k" by blast
        with s0 lt \<open>k = k0\<close> show False by auto
      qed
      have "articles st k = Some (s, e)"
        unfolding arts using r(1) Hs He r(4) r(5) en' lt sn
        by (auto; metis fun_upd_other less_trans nat_neq_iff)
      with kk show ?thesis by auto
    qed
  qed
  show ?thesis unfolding ea_inv_def using A B C by blast
qed

lemma ea_inv_truthy:
  assumes "ea_inv (hkey xs) st"
  shows "truthy (current_article st) \<longleftrightarrow> current_article st \<noteq> None"
proof (cases "current_article st")
  case None then show ?thesis by (simp add: truthy_def)
next
  case (Some k)
  with assms have "hkey xs (start st) = Some k" by (simp add: ea_inv_def)
  then have "k \<noteq> []" by (rule hkey_nonempty)
  with Some show ?thesis by (simp add: truthy_def)
qed

lemma ea_inv_step:
  assumes inv: "ea_inv (hkey xs) st"
  shows "ea_inv (hkey (xs @ [x])) (ea_step st (length xs, x))"
proof (cases "is_header x")
  case False
  then have "ea_step st (length xs, x) = st" by (simp add: ea_step_def)
  moreover have "hkey (xs @ [x]) = (hkey xs)(length xs := None)" using False by (simp add: hkey_snoc)
  ultimately show ?thesis using ea_inv_plain[OF inv hkey_ge[OF order_refl]] by simp
next
  case True
  have H: "hkey (xs @ [x]) = (hkey xs)(length xs := Some (header_key x))"
    using True by (simp add: hkey_snoc)
  show ?thesis
  proof (cases "current_article st")
    case None
    then have "ea_step st (length xs, x) = st\<lparr>current_article := Some (header_key x), start := length xs\<rparr>"
      using True by (simp add: ea_step_def truthy_def header_key_def)
    then show ?thesis using ea_inv_header_first[OF inv None] H by simp
  next
    case (Some k0)
    have "truthy (current_article st)" using ea_inv_truthy[OF inv] Some by simp
    then have "ea_step st (length xs, x) =
        st\<lparr>articles := (articles st)(k0 \<mapsto> (start st, length xs)),
           current_article := Some (header_key x), start := length xs\<rparr>"
      using True Some by (simp add: ea_step_def header_key_def)
    then show ?thesis using ea_inv_header_next[OF inv Some hkey_ge] H by simp
  qed
qed

lemma ea_inv_run: "ea_inv (hkey xs) (ea_run xs)"
proof (induction xs rule: rev_induct)
  case Nil
  show ?case using ea_inv_Nil by (simp add: ea_run_Nil)
next
  case (snoc x xs)
  show ?case using ea_inv_step[OF snoc] by (simp add: ea_run_snoc)
qed

lemma ea_finish_hkey:
  "ea_finish (length xs) (ea_run xs) k = Some (s, e) \<longleftrightarrow>
     hkey xs s = Some k \<and> (\<forall>s'. s < s' \<longrightarrow> hkey xs s' \<noteq> Some k) \<and>
     s < e \<and> e \<le> length xs \<and> (\<forall>i. s < i \<and> i < e \<longrightarrow> hkey xs i = None) \<and>
     (e < length xs \<longrightarrow> hkey xs e \<noteq> None)"
  (is "?L = ?R")
proof -
  let ?st = "ea_run xs" and ?n = "length xs"
  note inv = ea_inv_run[of xs]
  show ?thesis
  proof (cases "current_article ?st")
    case None
    with inv have none: "\<And>i. hkey xs i = None" by (simp add: ea_inv_def)
    from inv none have "articles ?st k = None"
      unfolding ea_inv_def by (metis not_Some_eq old.prod.exhaust)
    then show ?thesis using None none by (simp add: ea_finish_def truthy_def)
  next
    case (Some k0)
    have tr: "truthy (current_article ?st)" using ea_inv_truthy[OF inv] Some by simp
    let ?H = "(hkey xs)(?n := Some [])"
    let ?st' = "?st\<lparr>articles := (articles ?st)(k0 \<mapsto> (start ?st, ?n)), current_article := Some [], start := ?n\<rparr>"
    have inv': "ea_inv ?H ?st'" by (rule ea_inv_header_next[OF inv Some hkey_ge])
    have fin: "ea_finish ?n ?st = articles ?st'" using tr Some by (simp add: ea_finish_def)
    have "?L \<longleftrightarrow> s < e \<and> ?H s = Some k \<and> ?H e \<noteq> None \<and> (\<forall>i. s < i \<and> i < e \<longrightarrow> ?H i = None) \<and>
        (\<forall>s'. s < s' \<and> s' < ?n \<longrightarrow> ?H s' \<noteq> Some k)"
      using inv' unfolding fin ea_inv_def by simp
    also have "\<dots> \<longleftrightarrow> ?R"
    proof
      assume a: "s < e \<and> ?H s = Some k \<and> ?H e \<noteq> None \<and> (\<forall>i. s < i \<and> i < e \<longrightarrow> ?H i = None) \<and>
        (\<forall>s'. s < s' \<and> s' < ?n \<longrightarrow> ?H s' \<noteq> Some k)"
      have en: "e \<le> ?n" using a hkey_ge[of xs e] by (cases "e \<le> ?n") auto
      then have sn: "s < ?n" using a by simp
      have later: "hkey xs s' \<noteq> Some k" if "s < s'" for s'
      proof (cases "s' < ?n")
        case True with a that show ?thesis by auto
      next
        case False then show ?thesis using hkey_ge[of xs s'] by simp
      qed
      show ?R using a en sn later by auto
    next
      assume r: ?R
      then have sn: "s < ?n" by (metis hkey_ge not_le option.distinct(1))
      show "s < e \<and> ?H s = Some k \<and> ?H e \<noteq> None \<and> (\<forall>i. s < i \<and> i < e \<longrightarrow> ?H i = None) \<and>
        (\<forall>s'. s < s' \<and> s' < ?n \<longrightarrow> ?H s' \<noteq> Some k)"
        using r sn by auto
    qed
    finally show ?thesis .
  qed
qed

lemma extract_articles_hkey: "extract_articles doc = ea_finish (length doc) (ea_run doc)"
  by (simp add: extract_articles_def iter_block_items_def ea_run_def)

text \<open>
  Claim C5, as the code has it. The dictionary is keyed by the trimmed text of the header
  paragraph as it is written: the whole paragraph text, its case kept. A key \<open>k\<close> maps
  to \<open>(s, e)\<close> exactly when \<open>s\<close> is the index of the last header whose trimmed text is
  \<open>k\<close> and \<open>e\<close> is the index of the next header after \<open>s\<close>, or the number of blocks
  when no header follows. A document with no header gives the empty dictionary.
\<close>

theorem extract_articles_spans:
  "(extract_articles doc k = Some (s, e) \<longleftrightarrow>
      s < length doc \<and> is_header (doc ! s) \<and> py_strip (block_text (doc ! s)) = k \<and>
      (\<forall>h. s < h \<and> h < length doc \<and> is_header (doc ! h) \<longrightarrow> py_strip (block_text (doc ! h)) \<noteq> k) \<and>
      s < e \<and> e \<le> length doc \<and> (\<forall>i. s < i \<and> i < e \<longrightarrow> \<not> is_header (doc ! i)) \<and>
      (e < length doc \<longrightarrow> is_header (doc ! e))) \<and>
   ((\<forall>i < length doc. \<not> is_header (doc ! i)) \<longrightarrow> extract_articles doc = Map.empty)"
proof
  show "extract_articles doc k = Some (s, e) \<longleftrightarrow>
      s < length doc \<and> is_header (doc ! s) \<and> py_strip (block_text (doc ! s)) = k \<and>
      (\<forall>h. s < h \<and> h < length doc \<and> is_header (doc ! h) \<longrightarrow> py_strip (block_text (doc ! h)) \<noteq> k) \<and>
      s < e \<and> e \<le> length doc \<and> (\<forall>i. s < i \<and> i < e \<longrightarrow> \<not> is_header (doc ! i)) \<and>
      (e < length doc \<longrightarrow> is_header (doc ! e))"
    unfolding extract_articles_hkey ea_finish_hkey
    by (auto simp: hkey_def header_key_def split: if_splits; meson less_le_trans)
  show "(\<forall>i < length doc. \<not> is_header (doc ! i)) \<longrightarrow> extract_articles doc = Map.empty"
  proof
    assume "\<forall>i < length doc. \<not> is_header (doc ! i)"
    then have "\<And>i. hkey doc i = None" by (simp add: hkey_def)
    then have "extract_articles doc k' = None" for k'
      using ea_finish_hkey[of doc k'] unfolding extract_articles_hkey
      by (metis not_Some_eq old.prod.exhaust option.distinct(1))
    then show "extract_articles doc = Map.empty" by (rule_tac ext) simp
  qed
qed

text \<open>
  Headers at 0, 5 and 12 among twenty blocks give the spans \<open>[0,5)\<close>, \<open>[5,12)\<close> and
  \<open>[12,20)\<close>; two paragraphs that are no headers give the empty dictionary.
\<close>

theorem extract_articles_spans_witness:
  "extract_articles art_doc (Clan ''1'') = Some (0, 5) \<and>
   extract_articles art_doc (Clan ''2'') = Some (5, 12) \<and>
   extract_articles art_doc (Clan ''3'') = Some (12, 20) \<and>
   dom (extract_articles art_doc) = {Clan ''1'', Clan ''2'', Clan ''3''} \<and>
   extract_articles [Paragraph (new_para (asc ''a'')), Paragraph (new_para (asc ''b''))] = Map.empty"
  using extract_articles_spans [of art_doc "Clan ''1''" 0 5]
    extract_articles_spans [of "[Paragraph (new_para (asc ''a'')), Paragraph (new_para (asc ''b''))]"]
  by (auto simp add: ea_eval para_eval text_eval art_doc_def)

text \<open>
  The key is not normalized in case: a header written in capitals is filed under its
  capitals, and looking up the mixed-case spelling finds nothing. Where two headers
  have the same text only the later one keeps its span: the header at index 0 below
  has none.
\<close>

theorem extract_articles_case_counterexample:
  "extract_articles [Paragraph (new_para (CLAN ''1''))] (CLAN ''1'') = Some (0, 1) \<and>
   extract_articles [Paragraph (new_para (CLAN ''1''))] (Clan ''1'') = None \<and>
   extract_articles [Paragraph (new_para (Clan ''1'')), Paragraph (new_para (asc ''a'')),
     Paragraph (new_para (Clan ''1''))] (Clan ''1'') = Some (2, 3)"
  by (simp add: ea_eval para_eval text_eval)

section \<open>The amendment applier\<close>

text \<open>The modification marker \<^verbatim>\<open>*\<close>.\<close>

definition star :: nat where
  "star = 0x2A"

text \<open>
  \<^verbatim>\<open>str.splitlines()\<close> breaks a text at every line boundary (a carriage return followed
  by a line feed is one boundary) and gives no empty last line.
\<close>

definition line_boundaries :: "nat list" where
  "line_boundaries = [0xA, 0xB, 0xC, 0xD, 0x1C, 0x1D, 0x1E, 0x85, 0x2028, 0x2029]"

fun splitlines_from :: "pystr \<Rightarrow> pystr \<Rightarrow> pystr list" where
  "splitlines_from cur [] = (if cur = [] then [] else [rev cur])"
| "splitlines_from cur [c] = (if c \<in> set line_boundaries then [rev cur] else [rev (c # cur)])"
| "splitlines_from cur (c # d # cs) =
     (if c = 0xD \<and> d = 0xA then rev cur # splitlines_from [] cs
      else if c \<in> set line_boundaries then rev cur # splitlines_from [] (d # cs)
      else splitlines_from (c # cur) (d # cs))"

definition py_splitlines :: "pystr \<Rightarrow> pystr list" where
  "py_splitlines s = splitlines_from [] s"

text \<open>
  The text-transform service is outside the program. A call either gives a content or
  raises (a transport error, no choice in the response, a content that is
  \<^verbatim>\<open>None\<close>): the service is a function from the prompt, which is built from the old
  text and the instruction, and the number of the call to that outcome.
  \<^verbatim>\<open>apply_amendment_text\<close> returns the lines together with the number of calls made.
  Every exception of the loop body is caught by \<^verbatim>\<open>except Exception\<close>.
\<close>

datatype exn = ServiceError | ValueError

type_synonym service = "pystr \<times> pystr \<Rightarrow> nat \<Rightarrow> exn + pystr"

definition response_lines :: "pystr \<Rightarrow> pystr list" where
  "response_lines content =
     map py_strip (filter (\<lambda>l. py_strip l \<noteq> []) (py_splitlines (py_strip content)))"

definition validate :: "pystr \<Rightarrow> exn + pystr list" where
  "validate content =
     (let lines = response_lines content
      in if lines \<noteq> [] \<and> length lines > 1 \<and> star \<in> set (hd lines) then Inr lines
         else Inl ValueError)"

definition attempt_once :: "exn + pystr \<Rightarrow> exn + pystr list" where
  "attempt_once r = (case r of Inl e \<Rightarrow> Inl e | Inr content \<Rightarrow> validate content)"

fun attempts :: "(nat \<Rightarrow> exn + pystr) \<Rightarrow> nat \<Rightarrow> nat \<Rightarrow> (pystr list \<times> nat) option" where
  "attempts svc i 0 = None"
| "attempts svc i (Suc k) =
     (case attempt_once (svc i) of
        Inr lines \<Rightarrow> Some (lines, Suc i)
      | Inl e \<Rightarrow> attempts svc (Suc i) k)"

definition apply_amendment_text :: "service \<Rightarrow> pystr \<Rightarrow> pystr \<Rightarrow> exn + pystr list \<times> nat" where
  "apply_amendment_text client old_text instruction =
     (case attempts (client (old_text, instruction)) 0 3 of
        Some (lines, calls) \<Rightarrow> Inr (lines, calls)
      | None \<Rightarrow> Inr (py_splitlines old_text, 3))"



definition failing_service :: service where
  "failing_service prompt i = Inl ServiceError"

definition second_try_service :: service where
  "second_try_service prompt i =
     (if i = 1 then Inr (Clan ''1*'' @ [0xA] @ asc '' text A '' @ [0xA])
      else Inr (asc ''sorry''))"

lemma attempt_once_accepts:
  "attempt_once r = Inr ls \<longleftrightarrow>
     (\<exists>content. r = Inr content \<and> ls = response_lines content \<and> 2 \<le> length ls \<and> star \<in> set (hd ls))"
  by (cases r) (auto simp: attempt_once_def validate_def Let_def)

lemma attempts_all_fail:
  "(\<forall>j. i \<le> j \<and> j < i + n \<longrightarrow> isl (attempt_once (svc j))) \<Longrightarrow> attempts svc i n = None"
proof (induction n arbitrary: i)
  case 0 show ?case by simp
next
  case (Suc n)
  from Suc.prems have "isl (attempt_once (svc i))" by simp
  then obtain e where e: "attempt_once (svc i) = Inl e" by (cases "attempt_once (svc i)") auto
  have "attempts svc (Suc i) n = None" using Suc.prems by (intro Suc.IH) auto
  with e show ?case by simp
qed

lemma attempts_first_success:
  "(\<forall>j. i \<le> j \<and> j < i + m \<longrightarrow> isl (attempt_once (svc j))) \<Longrightarrow> attempt_once (svc (i + m)) = Inr ls \<Longrightarrow>
   m < n \<Longrightarrow> attempts svc i n = Some (ls, Suc (i + m))"
proof (induction n arbitrary: i m)
  case 0 then show ?case by simp
next
  case (Suc n)
  show ?case
  proof (cases m)
    case 0 with Suc.prems show ?thesis by simp
  next
    case (Suc m')
    from Suc.prems(1) Suc have "isl (attempt_once (svc i))" by simp
    then obtain e where e: "attempt_once (svc i) = Inl e" by (cases "attempt_once (svc i)") auto
    have "attempts svc (Suc i) n = Some (ls, Suc (Suc i + m'))"
      using Suc.prems Suc by (intro Suc.IH) auto
    with e Suc show ?thesis by simp
  qed
qed

lemma attempts_calls: "attempts svc i n = Some (ls, c) \<Longrightarrow> i < c \<and> c \<le> i + n"
proof (induction n arbitrary: i)
  case 0 then show ?case by simp
next
  case (Suc n)
  then show ?case by (fastforce split: sum.splits)
qed

text \<open>
  Claim C4. A response is accepted exactly when its non-empty trimmed lines are at least
  two and the first holds the marker, and then those lines are returned; the first
  accepted response among at most three calls is the result; when three calls fail the
  result is the old text split into lines, after exactly three calls; no call raises.
\<close>

theorem apply_amendment_text_contract:
  "(\<exists>lines calls. apply_amendment_text client old_text instruction = Inr (lines, calls) \<and>
       1 \<le> calls \<and> calls \<le> 3) \<and>
   (attempt_once r = Inr ls \<longleftrightarrow>
      (\<exists>content. r = Inr content \<and> ls = response_lines content \<and> 2 \<le> length ls \<and> star \<in> set (hd ls))) \<and>
   (m < 3 \<and> (\<forall>j < m. isl (attempt_once (client (old_text, instruction) j))) \<and>
      attempt_once (client (old_text, instruction) m) = Inr ls \<longrightarrow>
      apply_amendment_text client old_text instruction = Inr (ls, Suc m)) \<and>
   ((\<forall>j < 3. isl (attempt_once (client (old_text, instruction) j))) \<longrightarrow>
      apply_amendment_text client old_text instruction = Inr (py_splitlines old_text, 3))"
proof (intro conjI impI)
  show "\<exists>lines calls. apply_amendment_text client old_text instruction = Inr (lines, calls) \<and>
       1 \<le> calls \<and> calls \<le> 3"
  proof (cases "attempts (client (old_text, instruction)) 0 3")
    case None then show ?thesis by (simp add: apply_amendment_text_def)
  next
    case (Some a)
    obtain ls c where a: "a = (ls, c)" by (cases a)
    from attempts_calls[of _ 0 3 ls c] Some a have "0 < c \<and> c \<le> 3" by simp
    with Some a show ?thesis by (simp add: apply_amendment_text_def)
  qed
  show "attempt_once r = Inr ls \<longleftrightarrow>
      (\<exists>content. r = Inr content \<and> ls = response_lines content \<and> 2 \<le> length ls \<and> star \<in> set (hd ls))"
    by (rule attempt_once_accepts)
next
  assume a: "m < 3 \<and> (\<forall>j < m. isl (attempt_once (client (old_text, instruction) j))) \<and>
      attempt_once (client (old_text, instruction) m) = Inr ls"
  have "attempts (client (old_text, instruction)) 0 3 = Some (ls, Suc (0 + m))"
    using a by (intro attempts_first_success) auto
  then show "apply_amendment_text client old_text instruction = Inr (ls, Suc m)"
    by (simp add: apply_amendment_text_def)
next
  assume a: "\<forall>j < 3. isl (attempt_once (client (old_text, instruction) j))"
  have "attempts (client (old_text, instruction)) 0 3 = None"
    using a by (intro attempts_all_fail) auto
  then show "apply_amendment_text client old_text instruction = Inr (py_splitlines old_text, 3)"
    by (simp add: apply_amendment_text_def)
qed

theorem apply_amendment_text_contract_witness:
  "apply_amendment_text failing_service (asc ''a'' @ [0xA] @ asc ''b'') (asc ''x'') =
     Inr ([asc ''a'', asc ''b''], 3) \<and>
   apply_amendment_text second_try_service (asc ''a'') (asc ''x'') =
     Inr ([Clan ''1*'', asc ''text A''], 2)"
  using apply_amendment_text_contract [of failing_service "asc ''a'' @ [0xA] @ asc ''b''" "asc ''x''"]
    apply_amendment_text_contract [of second_try_service "asc ''a''" "asc ''x''" _ "[Clan ''1*'', asc ''text A'']" 1]
  by (simp add: failing_service_def second_try_service_def attempt_once_def validate_def
    response_lines_def py_splitlines_def line_boundaries_def star_def less_Suc_eq
    numeral_3_eq_3 Clan_def text_eval)

section \<open>The comparison keys of the diff\<close>

text \<open>
  \<^verbatim>\<open>s.replace(old, new)\<close> replaces the occurrences of \<^verbatim>\<open>old\<close> from left to right, none
  overlapping another; an empty \<^verbatim>\<open>old\<close> matches before every character and at the end.
\<close>

function py_replace :: "pystr \<Rightarrow> pystr \<Rightarrow> pystr \<Rightarrow> pystr" where
  "py_replace old new [] = (if old = [] then new else [])"
| "py_replace old new (c # cs) =
     (if old = [] then new @ c # py_replace old new cs
      else if starts_with old (c # cs) then new @ py_replace old new (drop (length old) (c # cs))
      else c # py_replace old new cs)"
  by pat_completeness auto
termination
  by (relation "measure (\<lambda>(old, new, s). length s)") auto






lemma star_not_space: "\<not> py_isspace star"
  by (simp add: star_def py_isspace_def in_ranges_def space_ranges_def)

lemma py_lstrip_idem: "py_lstrip (py_lstrip s) = py_lstrip s"
  by (simp add: py_lstrip_def dropWhile_idem)

lemma py_lstrip_rstrip: "py_lstrip (py_rstrip (py_lstrip s)) = py_rstrip (py_lstrip s)"
proof (cases "py_strip s = []")
  case True then show ?thesis by (simp add: py_strip_def py_lstrip_def)
next
  case False
  let ?l = "py_lstrip s"
  from False have ne: "?l \<noteq> []" by (auto simp: py_strip_def py_rstrip_def)
  then have h: "\<not> py_isspace (hd ?l)" unfolding py_lstrip_def by (metis hd_dropWhile)
  have pre: "?l = py_rstrip ?l @ rev (takeWhile py_isspace (rev ?l))"
    unfolding py_rstrip_def by (metis rev_append rev_rev_ident takeWhile_dropWhile_id)
  from False have ne2: "py_rstrip ?l \<noteq> []" by (simp add: py_strip_def)
  with pre have "hd (py_rstrip ?l) = hd ?l" by (metis hd_append2)
  with h ne2 show ?thesis unfolding py_lstrip_def[of "py_rstrip ?l"]
    by (cases "py_rstrip ?l") auto
qed

lemma py_strip_append_stars:
  "py_strip (py_strip t @ replicate n star) = py_strip t @ replicate n star"
proof (cases n)
  case 0
  have "py_rstrip (py_rstrip x) = py_rstrip x" for x
    by (simp add: py_rstrip_def dropWhile_idem)
  then show ?thesis using 0 by (simp add: py_strip_def py_lstrip_rstrip)
next
  case (Suc k)
  let ?s = "py_strip t"
  have l: "py_lstrip (?s @ replicate n star) = ?s @ replicate n star"
  proof (cases "?s = []")
    case True then show ?thesis using Suc star_not_space by (simp add: py_lstrip_def)
  next
    case False
    have "py_lstrip ?s = ?s" by (simp add: py_strip_def py_lstrip_rstrip)
    with False have "\<not> py_isspace (hd ?s)" unfolding py_lstrip_def
      by (metis hd_dropWhile)
    with False show ?thesis unfolding py_lstrip_def by (cases ?s) auto
  qed
  have r: "py_rstrip (?s @ replicate n star) = ?s @ replicate n star"
    using Suc star_not_space by (simp add: py_rstrip_def replicate_append_same[symmetric] del: replicate_Suc)
  show ?thesis unfolding py_strip_def[of "?s @ replicate n star"] l r ..
qed


lemma py_strip_idem: "py_strip (py_strip s) = py_strip s"
  using py_strip_append_stars [of s 0] by simp
















section \<open>The reference annotator\<close>

text \<open>
  After the diff is rendered, \<^verbatim>\<open>process_part_b\<close> collects the indices of the paragraphs
  that are article headers and hold the marker, and for each of them, from the last to
  the first, appends a reference paragraph to the document and moves it to that index.
\<close>

definition flagged :: "block \<Rightarrow> bool" where
  "flagged b =
     (case b of
        Paragraph p \<Rightarrow> ARTICLE_RE_match (py_strip (p_text p)) \<and> star \<in> set (p_text p)
      | Table t \<Rightarrow> False)"

definition insert_positions :: "block list \<Rightarrow> nat list" where
  "insert_positions diff_blocks = map fst (filter (\<lambda>(idx, b). flagged b) (enumerate 0 diff_blocks))"

text \<open>\<^verbatim>\<open>Pt(n)\<close> is a length of \<open>n\<close> points: 12700 English Metric Units each.\<close>

definition Pt :: "int \<Rightarrow> int" where
  "Pt n = n * 12700"

definition ref_para :: "pystr \<Rightarrow> para" where
  "ref_para ref =
     empty_para\<lparr>p_alignment := Some CENTER, p_space_before := Some (Pt 12),
       p_space_after := Some (Pt 6), p_line_spacing := Some (Multiple 240),
       p_runs := [(new_run ref)\<lparr>r_bold := Some True, r_font_name := Some (asc ''Arial''),
         r_font_size := Some (Pt 12), r_color := Some (0, 204, 51)\<rparr>]\<rparr>"

text \<open>
  \<^verbatim>\<open>body.insert(pos, element)\<close> of the element tree, for the element that
  \<^verbatim>\<open>add_paragraph\<close> has just appended as the last block: the element is moved before the
  child that stands at \<^verbatim>\<open>pos\<close>; when that child is the element itself or what follows the
  blocks, the order of the blocks stays.
\<close>

definition insert_last :: "nat \<Rightarrow> 'a list \<Rightarrow> 'a list" where
  "insert_last pos children =
     (if pos < length children - 1
      then take pos (butlast children) @ last children # drop pos (butlast children)
      else children)"

definition splice_ref :: "pystr \<Rightarrow> document \<Rightarrow> nat \<Rightarrow> document" where
  "splice_ref ref diff_doc pos = insert_last pos (diff_doc @ [Paragraph (ref_para ref)])"

definition annotate :: "pystr \<Rightarrow> document \<Rightarrow> document" where
  "annotate ref diff_doc =
     foldl (splice_ref ref) diff_doc (rev (insert_positions (iter_block_items diff_doc)))"

text \<open>The expected result: a reference paragraph before every flagged header.\<close>

definition with_refs :: "pystr \<Rightarrow> block list \<Rightarrow> block list" where
  "with_refs ref xs = concat (map (\<lambda>b. if flagged b then [Paragraph (ref_para ref), b] else [b]) xs)"

definition splice_doc :: document where
  "splice_doc = map (\<lambda>t. Paragraph (new_para t))
     [Clan ''1*'', asc ''a'', Clan ''2*'', Clan ''3'', asc ''b'', Clan ''4*'']"

lemma splice_ref_eq:
  "splice_ref ref d pos =
     (if pos < length d then take pos d @ Paragraph (ref_para ref) # drop pos d
      else d @ [Paragraph (ref_para ref)])"
  by (simp add: splice_ref_def insert_last_def)

lemma splice_ref_append:
  "pos < length xs \<Longrightarrow> splice_ref ref (xs @ ys) pos = splice_ref ref xs pos @ ys"
  by (simp add: splice_ref_eq)

lemma length_splice_ref: "length (splice_ref ref d pos) = Suc (length d)"
  by (simp add: splice_ref_eq)

lemma foldl_splice_append:
  "\<forall>p \<in> set ps. p < length xs \<Longrightarrow>
   foldl (splice_ref ref) (xs @ ys) ps = foldl (splice_ref ref) xs ps @ ys"
proof (induction ps arbitrary: xs)
  case Nil show ?case by simp
next
  case (Cons p ps)
  have "\<forall>q \<in> set ps. q < length (splice_ref ref xs p)"
    using Cons.prems by (auto simp: length_splice_ref)
  from Cons.IH[OF this] Cons.prems show ?case by (simp add: splice_ref_append)
qed

lemma insert_positions_snoc:
  "insert_positions (xs @ [x]) = insert_positions xs @ (if flagged x then [length xs] else [])"
  by (simp add: insert_positions_def enumerate_append_eq)

lemma insert_positions_less: "p \<in> set (insert_positions xs) \<Longrightarrow> p < length xs"
  by (auto simp: insert_positions_def in_set_enumerate_eq)

lemma annotate_with_refs: "annotate ref doc = with_refs ref doc"
proof (induction doc rule: rev_induct)
  case Nil
  show ?case by (simp add: annotate_def with_refs_def insert_positions_def iter_block_items_def)
next
  case (snoc x xs)
  have less: "\<forall>p \<in> set (rev (insert_positions xs)). p < length xs"
    by (simp add: insert_positions_less)
  have IH: "foldl (splice_ref ref) xs (rev (insert_positions xs)) = with_refs ref xs"
    using snoc by (simp add: annotate_def iter_block_items_def)
  show ?case
  proof (cases "flagged x")
    case True
    have "annotate ref (xs @ [x]) =
        foldl (splice_ref ref) (xs @ [Paragraph (ref_para ref), x]) (rev (insert_positions xs))"
      using True by (simp add: annotate_def iter_block_items_def insert_positions_snoc splice_ref_eq)
    also have "\<dots> = with_refs ref xs @ [Paragraph (ref_para ref), x]"
      using foldl_splice_append[OF less] IH by simp
    finally show ?thesis using True by (simp add: with_refs_def)
  next
    case False
    have "annotate ref (xs @ [x]) = foldl (splice_ref ref) (xs @ [x]) (rev (insert_positions xs))"
      using False by (simp add: annotate_def iter_block_items_def insert_positions_snoc)
    also have "\<dots> = with_refs ref xs @ [x]"
      using foldl_splice_append[OF less] IH by simp
    finally show ?thesis using False by (simp add: with_refs_def)
  qed
qed

lemma with_refs_append: "with_refs ref (xs @ ys) = with_refs ref xs @ with_refs ref ys"
  by (simp add: with_refs_def)

lemma length_with_refs: "length (with_refs ref xs) = length xs + length (filter flagged xs)"
  by (induction xs) (auto simp: with_refs_def)

lemma filter_with_refs:
  "\<not> flagged (Paragraph (ref_para ref)) \<Longrightarrow> filter flagged (with_refs ref xs) = filter flagged xs"
  by (induction xs) (auto simp: with_refs_def)

lemma with_refs_mid:
  "with_refs ref (xs @ x # ys) =
     with_refs ref xs @ (if flagged x then [Paragraph (ref_para ref), x] else [x]) @ with_refs ref ys"
  by (simp add: with_refs_def)

lemma with_refs_nth_mid:
  assumes "flagged x"
  shows "with_refs ref (xs @ x # ys) ! (length xs + length (filter flagged xs)) = Paragraph (ref_para ref) \<and>
         with_refs ref (xs @ x # ys) ! Suc (length xs + length (filter flagged xs)) = x"
proof -
  let ?n = "length xs + length (filter flagged xs)"
  have n: "length (with_refs ref xs) = ?n" by (rule length_with_refs)
  have e: "with_refs ref (xs @ x # ys) =
      with_refs ref xs @ Paragraph (ref_para ref) # x # with_refs ref ys"
    using assms by (simp add: with_refs_mid)
  have a: "(with_refs ref xs @ Paragraph (ref_para ref) # x # with_refs ref ys) ! ?n = Paragraph (ref_para ref)"
    using n by (metis nth_append_length)
  have "(with_refs ref xs @ Paragraph (ref_para ref) # x # with_refs ref ys) ! (?n + 1) =
        (Paragraph (ref_para ref) # x # with_refs ref ys) ! 1"
    using n by (metis nth_append_length_plus)
  then have b: "(with_refs ref xs @ Paragraph (ref_para ref) # x # with_refs ref ys) ! Suc ?n = x"
    by simp
  show ?thesis unfolding e using a b by blast
qed

lemma with_refs_nth:
  assumes "i < length doc" "flagged (doc ! i)"
  shows "with_refs ref doc ! (i + length (filter flagged (take i doc))) = Paragraph (ref_para ref) \<and>
         with_refs ref doc ! Suc (i + length (filter flagged (take i doc))) = doc ! i"
proof -
  have d: "take i doc @ doc ! i # drop (Suc i) doc = doc"
    using assms(1) by (simp add: id_take_nth_drop[symmetric])
  have l: "length (take i doc) = i" using assms(1) by simp
  from with_refs_nth_mid[OF assms(2), of ref "take i doc" "drop (Suc i) doc"]
  show ?thesis unfolding d l .
qed

text \<open>
  Claim C10. Splicing at the collected positions in descending order gives the rendered
  sequence with one reference paragraph immediately before every flagged header and
  nothing else changed or moved: the flagged header of index \<open>i\<close> ends just after its
  reference paragraph, which stands at \<open>i\<close> plus the number of flagged headers before
  it; and a second scan finds the same flagged headers, when the reference paragraph
  is not itself a flagged header.
\<close>

theorem annotate_splice:
  "annotate ref doc =
     concat (map (\<lambda>b. if flagged b then [Paragraph (ref_para ref), b] else [b]) doc) \<and>
   (i < length doc \<and> flagged (doc ! i) \<longrightarrow>
      annotate ref doc ! (i + length (filter flagged (take i doc))) = Paragraph (ref_para ref) \<and>
      annotate ref doc ! Suc (i + length (filter flagged (take i doc))) = doc ! i) \<and>
   (\<not> flagged (Paragraph (ref_para ref)) \<longrightarrow>
      filter flagged (annotate ref doc) = filter flagged doc)"
proof (intro conjI impI)
  show "annotate ref doc =
     concat (map (\<lambda>b. if flagged b then [Paragraph (ref_para ref), b] else [b]) doc)"
    by (simp add: annotate_with_refs with_refs_def)
next
  assume "i < length doc \<and> flagged (doc ! i)"
  then show "annotate ref doc ! (i + length (filter flagged (take i doc))) = Paragraph (ref_para ref)"
    and "annotate ref doc ! Suc (i + length (filter flagged (take i doc))) = doc ! i"
    using with_refs_nth[of i doc ref] by (simp_all add: annotate_with_refs)
next
  assume "\<not> flagged (Paragraph (ref_para ref))"
  then show "filter flagged (annotate ref doc) = filter flagged doc"
    by (simp add: annotate_with_refs filter_with_refs)
qed

text \<open>Three flagged headers among six paragraphs.\<close>

theorem annotate_splice_witness:
  "annotate (asc ''[R]'') splice_doc =
     map (\<lambda>t. Paragraph t)
       [ref_para (asc ''[R]''), new_para (Clan ''1*''), new_para (asc ''a''),
        ref_para (asc ''[R]''), new_para (Clan ''2*''), new_para (Clan ''3''), new_para (asc ''b''),
        ref_para (asc ''[R]''), new_para (Clan ''4*'')] \<and>
   annotate (asc ''[R]'') splice_doc ! 3 = Paragraph (ref_para (asc ''[R]'')) \<and>
   annotate (asc ''[R]'') splice_doc ! 4 = splice_doc ! 2 \<and>
   filter flagged (annotate (asc ''[R]'') splice_doc) = filter flagged splice_doc"
  using annotate_splice [of "asc ''[R]''" splice_doc 2]
  by (simp add: splice_doc_def flagged_def ref_para_def star_def para_eval text_eval)

section \<open>The amending reference\<close>

text \<open>
  \<^verbatim>\<open>extract_amending_ref\<close> runs over all blocks of the amendment document and keeps
  three variables, each overwritten at every paragraph that matches. \<^verbatim>\<open>str.upper\<close> is
  the case mapping of the Python runtime; it is a parameter here.
\<close>

record ar_state =
  ar_article :: pystr
  ar_law_name :: pystr
  ar_gazette :: pystr

definition ar_init :: ar_state where
  "ar_init = \<lparr>ar_article = [], ar_law_name = [], ar_gazette = []\<rparr>"

definition names_statute :: "(pystr \<Rightarrow> pystr) \<Rightarrow> pystr \<Rightarrow> bool" where
  "names_statute upper t = py_contains (asc ''ZAKON O'') (upper t)"

definition has_gazette_marker :: "(pystr \<Rightarrow> pystr) \<Rightarrow> pystr \<Rightarrow> bool" where
  "has_gazette_marker upper t = py_contains (asc ''SL. GLASNIK RS'') (upper t)"

definition ar_step :: "(pystr \<Rightarrow> pystr) \<Rightarrow> ar_state \<Rightarrow> block \<Rightarrow> ar_state" where
  "ar_step upper st b =
     (case b of
        Paragraph p \<Rightarrow>
          (let t = py_strip (p_text p);
               st1 = (if ARTICLE_RE_match t then st\<lparr>ar_article := upper t\<rparr> else st);
               st2 = (if names_statute upper t then st1\<lparr>ar_law_name := upper t\<rparr> else st1)
           in if has_gazette_marker upper t then st2\<lparr>ar_gazette := upper t\<rparr> else st2)
      | Table t \<Rightarrow> st)"

definition fallback_ref :: pystr where
  "fallback_ref = asc ''['' @ CLAN ''23 STAV 2 ZAKONA O ELEKTRONSKOM FAKTURISANJU ('' @ [0x22] @
     asc ''SL. GLASNIK RS'' @ [0x22] @ asc '', BR. 44/2021)]''"

definition compose_ref :: "pystr \<Rightarrow> pystr \<Rightarrow> pystr \<Rightarrow> pystr" where
  "compose_ref a l g = asc ''['' @ a @ asc '' '' @ l @ asc '' '' @ g @ asc '']''"

definition extract_amending_ref :: "(pystr \<Rightarrow> pystr) \<Rightarrow> document \<Rightarrow> pystr" where
  "extract_amending_ref upper gov_doc =
     (let st = foldl (ar_step upper) ar_init (iter_block_items gov_doc)
      in if ar_article st \<noteq> [] \<and> ar_law_name st \<noteq> [] \<and> ar_gazette st \<noteq> []
         then compose_ref (ar_article st) (ar_law_name st) (ar_gazette st)
         else fallback_ref)"

text \<open>The trimmed texts of the paragraphs, and the last text of a list with a property.\<close>

definition paragraph_texts :: "document \<Rightarrow> pystr list" where
  "paragraph_texts doc = concat (map (\<lambda>b. case b of Paragraph p \<Rightarrow> [py_strip (p_text p)] | Table t \<Rightarrow> []) doc)"

definition last_where :: "(pystr \<Rightarrow> bool) \<Rightarrow> pystr list \<Rightarrow> pystr option" where
  "last_where P ts = (case rev (filter P ts) of [] \<Rightarrow> None | t # _ \<Rightarrow> Some t)"

text \<open>
  \<^verbatim>\<open>str.upper\<close> on texts of the Basic Latin block and the Serbian Latin letters, for the
  examples.
\<close>

definition latin_upper_char :: "nat \<Rightarrow> nat" where
  "latin_upper_char c =
     (if 0x61 \<le> c \<and> c \<le> 0x7A then c - 0x20
      else if c \<in> {0x107, 0x10D, 0x111, 0x161, 0x17E} then c - 1 else c)"

definition latin_upper :: "pystr \<Rightarrow> pystr" where
  "latin_upper s = map latin_upper_char s"

definition gov_doc_sample :: document where
  "gov_doc_sample = map (\<lambda>t. Paragraph (new_para t))
     [asc ''Zakon o racunima'', Clan ''23'', asc ''Sl. glasnik RS, br. 44/2021'']"

definition gov_doc_two_headers :: document where
  "gov_doc_two_headers = map (\<lambda>t. Paragraph (new_para t))
     [Clan ''1'', asc ''Zakon o a'', asc ''Sl. glasnik RS 1'', Clan ''2'']"

lemma last_where_snoc:
  "last_where P (ts @ [t]) = (if P t then Some t else last_where P ts)"
  by (simp add: last_where_def)

lemma paragraph_texts_snoc:
  "paragraph_texts (doc @ [b]) =
     paragraph_texts doc @ (case b of Paragraph p \<Rightarrow> [py_strip (p_text p)] | Table t \<Rightarrow> [])"
  by (simp add: paragraph_texts_def)

lemma ar_fold:
  "foldl (ar_step upper) ar_init doc =
     \<lparr>ar_article = (case last_where ARTICLE_RE_match (paragraph_texts doc) of None \<Rightarrow> [] | Some t \<Rightarrow> upper t),
      ar_law_name = (case last_where (names_statute upper) (paragraph_texts doc) of None \<Rightarrow> [] | Some t \<Rightarrow> upper t),
      ar_gazette = (case last_where (has_gazette_marker upper) (paragraph_texts doc) of None \<Rightarrow> [] | Some t \<Rightarrow> upper t)\<rparr>"
proof (induction doc rule: rev_induct)
  case Nil
  show ?case by (simp add: ar_init_def paragraph_texts_def last_where_def)
next
  case (snoc b doc)
  have "foldl (ar_step upper) ar_init (doc @ [b]) = ar_step upper (foldl (ar_step upper) ar_init doc) b"
    by simp
  also have "\<dots> = ar_step upper
     \<lparr>ar_article = (case last_where ARTICLE_RE_match (paragraph_texts doc) of None \<Rightarrow> [] | Some t \<Rightarrow> upper t),
      ar_law_name = (case last_where (names_statute upper) (paragraph_texts doc) of None \<Rightarrow> [] | Some t \<Rightarrow> upper t),
      ar_gazette = (case last_where (has_gazette_marker upper) (paragraph_texts doc) of None \<Rightarrow> [] | Some t \<Rightarrow> upper t)\<rparr> b"
    by (simp only: snoc)
  also have "\<dots> = \<lparr>ar_article = (case last_where ARTICLE_RE_match (paragraph_texts (doc @ [b])) of None \<Rightarrow> [] | Some t \<Rightarrow> upper t),
      ar_law_name = (case last_where (names_statute upper) (paragraph_texts (doc @ [b])) of None \<Rightarrow> [] | Some t \<Rightarrow> upper t),
      ar_gazette = (case last_where (has_gazette_marker upper) (paragraph_texts (doc @ [b])) of None \<Rightarrow> [] | Some t \<Rightarrow> upper t)\<rparr>"
    by (cases b) (simp_all add: ar_step_def Let_def paragraph_texts_snoc last_where_snoc)
  finally show ?case .
qed

lemma last_where_holds: "last_where P ts = Some t \<Longrightarrow> P t"
proof (induction ts rule: rev_induct)
  case Nil then show ?case by (simp add: last_where_def)
next
  case (snoc x xs) then show ?case by (auto simp: last_where_snoc split: if_splits)
qed

lemma py_contains_nonempty: "py_contains (n # ns) hay \<Longrightarrow> hay \<noteq> []"
  by (cases hay) auto

lemmas ar_eval = extract_amending_ref_def ar_step_def ar_init_def names_statute_def
  has_gazette_marker_def compose_ref_def fallback_ref_def latin_upper_def latin_upper_char_def
  iter_block_items_def gov_doc_two_headers_def gov_doc_sample_def

text \<open>
  Claim C6, as the code has it. The reference is composed, in brackets, from the
  upper-cased trimmed texts of the last header-like paragraph, the last paragraph that
  names a statute and the last paragraph that holds the gazette marker; when one of the
  three is absent the result is the fixed literal.
\<close>

theorem extract_amending_ref_last:
  assumes "\<forall>s. s \<noteq> [] \<longrightarrow> upper s \<noteq> []"
  shows "extract_amending_ref upper gov_doc =
     (case (last_where ARTICLE_RE_match (paragraph_texts gov_doc),
            last_where (names_statute upper) (paragraph_texts gov_doc),
            last_where (has_gazette_marker upper) (paragraph_texts gov_doc)) of
        (Some a, Some l, Some g) \<Rightarrow> compose_ref (upper a) (upper l) (upper g)
      | _ \<Rightarrow> fallback_ref)"
proof -
  let ?ts = "paragraph_texts gov_doc"
  have a: "upper t \<noteq> []" if "last_where ARTICLE_RE_match ?ts = Some t" for t
    using last_where_holds[OF that] assms ARTICLE_RE_match_nonempty by blast
  have l: "upper t \<noteq> []" if "last_where (names_statute upper) ?ts = Some t" for t
    using last_where_holds[OF that] py_contains_nonempty by (simp add: names_statute_def)
  have g: "upper t \<noteq> []" if "last_where (has_gazette_marker upper) ?ts = Some t" for t
    using last_where_holds[OF that] py_contains_nonempty by (simp add: has_gazette_marker_def)
  show ?thesis
    using a l g
    by (simp add: extract_amending_ref_def iter_block_items_def ar_fold Let_def split: option.splits)
qed

theorem extract_amending_ref_last_witness:
  "extract_amending_ref latin_upper gov_doc_sample =
     asc ''['' @ CLAN ''23 ZAKON O RACUNIMA SL. GLASNIK RS, BR. 44/2021]'' \<and>
   extract_amending_ref latin_upper [Paragraph (new_para (Clan ''23''))] = fallback_ref"
proof -
  have h: "\<forall>s. s \<noteq> [] \<longrightarrow> latin_upper s \<noteq> []"
    by (simp add: latin_upper_def)
  show ?thesis
    using extract_amending_ref_last [OF h, of gov_doc_sample]
      extract_amending_ref_last [OF h, of "[Paragraph (new_para (Clan ''23''))]"]
    by (simp add: ar_eval para_eval text_eval)
qed

text \<open>
  With two header-like paragraphs the reference names the second one, not the first.
\<close>

theorem extract_amending_ref_counterexample:
  "extract_amending_ref latin_upper gov_doc_two_headers =
     asc ''['' @ CLAN ''2 ZAKON O A SL. GLASNIK RS 1]''"
  by (simp add: ar_eval para_eval text_eval)

section \<open>The gazette citation\<close>

text \<open>
  \<^verbatim>\<open>GAZETTE_RE = re.compile(r'\"Sl\. glasnik RS\", br\. (.+?)\)')\<close>. \<^verbatim>\<open>search\<close> takes the
  leftmost position where the literal is followed by the group and a closing parenthesis.
  The group is lazy and \<^verbatim>\<open>.\<close> matches every character but the line feed: the group is
  one character, then the characters up to the next closing parenthesis, none of them a
  line feed. The result holds \<^verbatim>\<open>group(0)\<close> and \<^verbatim>\<open>group(1)\<close>.
\<close>

definition gazette_prefix :: pystr where
  "gazette_prefix = [0x22] @ asc ''Sl. glasnik RS'' @ [0x22] @ asc '', br. ''"

fun lazy_group :: "pystr \<Rightarrow> pystr option" where
  "lazy_group [] = None"
| "lazy_group (c # cs) =
     (if c = 0xA then None
      else (case dropWhile (\<lambda>d. d \<noteq> 0x29 \<and> d \<noteq> 0xA) cs of
              [] \<Rightarrow> None
            | d # _ \<Rightarrow> if d = 0x29 then Some (c # takeWhile (\<lambda>d. d \<noteq> 0x29 \<and> d \<noteq> 0xA) cs)
                       else None))"

fun GAZETTE_RE_search :: "pystr \<Rightarrow> (pystr \<times> pystr) option" where
  "GAZETTE_RE_search [] = None"
| "GAZETTE_RE_search (c # cs) =
     (if starts_with gazette_prefix (c # cs)
      then (case lazy_group (drop (length gazette_prefix) (c # cs)) of
              Some g \<Rightarrow> Some (gazette_prefix @ g @ [0x29], g)
            | None \<Rightarrow> GAZETTE_RE_search cs)
      else GAZETTE_RE_search cs)"

text \<open>
  \<^verbatim>\<open>s.split(sep)\<close> cuts at the occurrences of \<^verbatim>\<open>sep\<close> from left to right, none overlapping
  another; the separator of the source is the literal \<^verbatim>\<open>' i '\<close>. \<^verbatim>\<open>sep.join(xs)\<close> puts
  the separator between the elements.
\<close>

function split_from :: "pystr \<Rightarrow> pystr \<Rightarrow> pystr \<Rightarrow> pystr list" where
  "split_from sep acc [] = [acc]"
| "split_from sep acc (c # cs) =
     (if sep \<noteq> [] \<and> starts_with sep (c # cs)
      then acc # split_from sep [] (drop (length sep) (c # cs))
      else split_from sep (acc @ [c]) cs)"
  by pat_completeness auto
termination
  by (relation "measure (\<lambda>(sep, acc, s). length s)") auto

definition py_split :: "pystr \<Rightarrow> pystr \<Rightarrow> pystr list" where
  "py_split sep s = split_from sep [] s"

fun py_join :: "pystr \<Rightarrow> pystr list \<Rightarrow> pystr" where
  "py_join sep [] = []"
| "py_join sep [x] = x"
| "py_join sep (x # y # ys) = x @ sep @ py_join sep (y # ys)"

text \<open>
  \<^verbatim>\<open>merge_gazette_text\<close>. The tokens of a citation are the trimmed pieces of the group.
  The source sorts a \<^verbatim>\<open>set\<close> by the key \<^verbatim>\<open>(not x.isdigit(), x)\<close>; pairs compare
  lexicographically, \<^verbatim>\<open>False\<close> before \<^verbatim>\<open>True\<close>, and strings by code points. The set is
  the list of the tokens without duplicates: the key is injective, so the sorted list
  does not depend on the order in which the set is traversed (\<open>merged_refs_order_free\<close>).
  The replacement text of the source opens with a parenthesis that \<^verbatim>\<open>group(0)\<close> does not
  hold.
\<close>

definition refs_of :: "pystr \<Rightarrow> pystr list" where
  "refs_of g = map py_strip (py_split (asc '' i '') g)"

definition sort_flag :: "pystr \<Rightarrow> bool \<times> pystr" where
  "sort_flag x = (\<not> py_isdigit x, x)"

definition merged_refs :: "pystr list \<Rightarrow> pystr list \<Rightarrow> pystr list" where
  "merged_refs old_refs new_refs = sort_key sort_flag (remdups (old_refs @ new_refs))"

definition render :: "pystr list \<Rightarrow> pystr" where
  "render refs = asc ''('' @ gazette_prefix @ py_join (asc '' i '') refs @ asc '')''"

definition merge_gazette_text :: "pystr \<Rightarrow> pystr \<Rightarrow> pystr" where
  "merge_gazette_text old_text new_text =
     (case GAZETTE_RE_search old_text of
        None \<Rightarrow> old_text
      | Some (g0, g1) \<Rightarrow>
          (case GAZETTE_RE_search new_text of
             None \<Rightarrow> old_text
           | Some (h0, h1) \<Rightarrow>
               py_replace g0 (render (merged_refs (refs_of g1) (refs_of h1))) old_text))"

definition old_citation :: pystr where
  "old_citation = asc ''Zakon ('' @ gazette_prefix @ asc ''44/2021)''"

definition new_citation :: pystr where
  "new_citation = asc ''Zakon ('' @ gazette_prefix @ asc ''44/2021 i 95/2022)''"

lemma inj_sort_flag: "inj sort_flag"
  by (simp add: inj_on_def sort_flag_def)

lemma merged_refs_order_free:
  assumes "set xs = set ys"
  shows "sort_key sort_flag (remdups xs) = sort_key sort_flag (remdups ys)"
proof -
  let ?a = "sort_key sort_flag (remdups xs)" and ?b = "sort_key sort_flag (remdups ys)"
  have s1: "sorted (map sort_flag ?a)" and s2: "sorted (map sort_flag ?b)"
    by (rule sorted_sort_key)+
  have d1: "distinct (map sort_flag ?a)" and d2: "distinct (map sort_flag ?b)"
    by (simp_all add: distinct_map inj_sort_flag inj_on_subset [OF inj_sort_flag])
  have e: "set (map sort_flag ?a) = set (map sort_flag ?b)"
    using assms by simp
  have "map sort_flag ?a = map sort_flag ?b"
    by (rule sorted_distinct_set_unique [OF s1 d1 s2 d2 e])
  thus ?thesis
    using inj_sort_flag by (simp add: inj_map_eq_map)
qed

lemma merged_refs_pairwise:
  assumes "i < j" and "j < length (merged_refs a b)"
  shows "sort_flag (merged_refs a b ! i) < sort_flag (merged_refs a b ! j)"
proof -
  let ?m = "merged_refs a b"
  have s: "sorted (map sort_flag ?m)"
    unfolding merged_refs_def by (rule sorted_sort_key)
  have d: "distinct ?m"
    by (simp add: merged_refs_def)
  from s assms have "map sort_flag ?m ! i \<le> map sort_flag ?m ! j"
    by (simp add: sorted_iff_nth_mono)
  hence le: "sort_flag (?m ! i) \<le> sort_flag (?m ! j)"
    using assms by simp
  from d assms have "?m ! i \<noteq> ?m ! j"
    by (simp add: nth_eq_iff_index_eq)
  hence "sort_flag (?m ! i) \<noteq> sort_flag (?m ! j)"
    by (simp add: sort_flag_def)
  with le show ?thesis
    by simp
qed

definition digits_old :: pystr where
  "digits_old = asc ''('' @ gazette_prefix @ asc ''44/2021)''"

definition digits_new :: pystr where
  "digits_new = asc ''('' @ gazette_prefix @ asc ''3)''"

lemmas gz_eval = gazette_prefix_def merge_gazette_text_def render_def merged_refs_def refs_of_def
  py_split_def sort_flag_def old_citation_def new_citation_def digits_old_def
  digits_new_def py_isdigit_def
  py_isdigit_char_def

lemma search_old:
  "GAZETTE_RE_search old_citation = Some (gazette_prefix @ asc ''44/2021)'', asc ''44/2021'')"
  by (simp add: gz_eval)

lemma search_new:
  "GAZETTE_RE_search new_citation =
     Some (gazette_prefix @ asc ''44/2021 i 95/2022)'', asc ''44/2021 i 95/2022'')"
  by (simp add: gz_eval)

lemma search_digits_old:
  "GAZETTE_RE_search digits_old = Some (gazette_prefix @ asc ''44/2021)'', asc ''44/2021'')"
  by (simp add: gz_eval)

lemma search_digits_new:
  "GAZETTE_RE_search digits_new = Some (gazette_prefix @ asc ''3)'', asc ''3'')"
  by (simp add: gz_eval)

lemma refs_old: "refs_of (asc ''44/2021'') = [asc ''44/2021'']"
  by (simp add: gz_eval text_eval)

lemma refs_new: "refs_of (asc ''44/2021 i 95/2022'') = [asc ''44/2021'', asc ''95/2022'']"
  by (simp add: gz_eval text_eval)

lemma merged_ex: "merged_refs [asc ''44/2021''] [asc ''44/2021'', asc ''95/2022'']
   = [asc ''44/2021'', asc ''95/2022'']"
  by (simp add: gz_eval text_eval less_eq_prod_def less_prod_def)


text \<open>
  Claim C3, as the code has it. When both texts hold a citation, the result is the old
  text with the citation replaced by the rendering of the merged tokens joined by
  \<^verbatim>\<open>' i '\<close>. The merged tokens are the union of the two token sets, each token once; a
  token made of digits only (\<^verbatim>\<open>str.isdigit\<close>) comes before every other token, and two
  tokens of the same kind stand in the lexicographic order of their code points, not
  in the order of the numbers they denote.
\<close>

theorem merge_gazette_text_union:
  assumes "GAZETTE_RE_search old_text = Some (g0, g1)"
    and "GAZETTE_RE_search new_text = Some (h0, h1)"
  shows "merge_gazette_text old_text new_text =
           py_replace g0 (asc ''('' @ gazette_prefix @
             py_join (asc '' i '') (merged_refs (refs_of g1) (refs_of h1)) @ asc '')'') old_text \<and>
         set (merged_refs (refs_of g1) (refs_of h1)) = set (refs_of g1) \<union> set (refs_of h1) \<and>
         distinct (merged_refs (refs_of g1) (refs_of h1)) \<and>
         (\<forall>i j. i < j \<and> j < length (merged_refs (refs_of g1) (refs_of h1)) \<longrightarrow>
            (py_isdigit (merged_refs (refs_of g1) (refs_of h1) ! j) \<longrightarrow>
               py_isdigit (merged_refs (refs_of g1) (refs_of h1) ! i)) \<and>
            (py_isdigit (merged_refs (refs_of g1) (refs_of h1) ! i) =
               py_isdigit (merged_refs (refs_of g1) (refs_of h1) ! j) \<longrightarrow>
               merged_refs (refs_of g1) (refs_of h1) ! i < merged_refs (refs_of g1) (refs_of h1) ! j))"
proof (intro conjI allI impI)
  show "merge_gazette_text old_text new_text =
           py_replace g0 (asc ''('' @ gazette_prefix @
             py_join (asc '' i '') (merged_refs (refs_of g1) (refs_of h1)) @ asc '')'') old_text"
    using assms by (simp add: merge_gazette_text_def render_def)
  show "set (merged_refs (refs_of g1) (refs_of h1)) = set (refs_of g1) \<union> set (refs_of h1)"
    by (simp add: merged_refs_def)
  show "distinct (merged_refs (refs_of g1) (refs_of h1))"
    by (simp add: merged_refs_def)
next
  fix i j
  assume a: "i < j \<and> j < length (merged_refs (refs_of g1) (refs_of h1))"
  hence lt: "sort_flag (merged_refs (refs_of g1) (refs_of h1) ! i)
      < sort_flag (merged_refs (refs_of g1) (refs_of h1) ! j)"
    by (simp add: merged_refs_pairwise)
  { assume "py_isdigit (merged_refs (refs_of g1) (refs_of h1) ! j)"
    with lt show "py_isdigit (merged_refs (refs_of g1) (refs_of h1) ! i)"
      by (auto simp add: sort_flag_def less_prod_def) }
  { assume "py_isdigit (merged_refs (refs_of g1) (refs_of h1) ! i) =
               py_isdigit (merged_refs (refs_of g1) (refs_of h1) ! j)"
    with lt show "merged_refs (refs_of g1) (refs_of h1) ! i < merged_refs (refs_of g1) (refs_of h1) ! j"
      by (auto simp add: sort_flag_def less_prod_def) }
qed


text \<open>
  The example of the specification, and a citation with tokens made of digits.
\<close>

theorem merge_gazette_text_union_witness:
  "merge_gazette_text old_citation new_citation =
     asc ''Zakon (('' @ gazette_prefix @ asc ''44/2021 i 95/2022)'' \<and>
   merged_refs (refs_of (asc ''44/2021'')) (refs_of (asc ''44/2021 i 95/2022'')) =
     [asc ''44/2021'', asc ''95/2022''] \<and>
   merge_gazette_text digits_old digits_new = asc ''(('' @ gazette_prefix @ asc ''3 i 44/2021)''"
proof -
  have m: "merged_refs (refs_of (asc ''44/2021'')) (refs_of (asc ''44/2021 i 95/2022'')) =
      [asc ''44/2021'', asc ''95/2022'']"
    by (simp only: refs_old refs_new merged_ex)
  have "merge_gazette_text old_citation new_citation =
      py_replace (gazette_prefix @ asc ''44/2021)'')
        (asc ''('' @ gazette_prefix @
           py_join (asc '' i '') [asc ''44/2021'', asc ''95/2022''] @ asc '')'') old_citation"
    using merge_gazette_text_union [OF search_old search_new] by (simp only: m)
  also have "\<dots> = asc ''Zakon (('' @ gazette_prefix @ asc ''44/2021 i 95/2022)''"
    by (simp add: gazette_prefix_def old_citation_def)
  finally have first: "merge_gazette_text old_citation new_citation =
      asc ''Zakon (('' @ gazette_prefix @ asc ''44/2021 i 95/2022)''" .
  have m2: "merged_refs (refs_of (asc ''44/2021'')) (refs_of (asc ''3'')) =
      [asc ''3'', asc ''44/2021'']"
    by (simp add: gz_eval text_eval less_eq_prod_def less_prod_def)
  have "merge_gazette_text digits_old digits_new =
      py_replace (gazette_prefix @ asc ''44/2021)'')
        (asc ''('' @ gazette_prefix @
           py_join (asc '' i '') [asc ''3'', asc ''44/2021''] @ asc '')'') digits_old"
    using merge_gazette_text_union [OF search_digits_old search_digits_new] by (simp only: m2)
  also have "\<dots> = asc ''(('' @ gazette_prefix @ asc ''3 i 44/2021)''"
    by (simp add: gazette_prefix_def digits_old_def)
  finally show ?thesis
    using first m by simp
qed

text \<open>
  Tokens that denote numbers are not in ascending order: \<^verbatim>\<open>10\<close> comes before \<^verbatim>\<open>7\<close>, and
  \<^verbatim>\<open>101/2016\<close>, which is not made of digits only, before \<^verbatim>\<open>94/2016\<close>.
\<close>

theorem merge_gazette_text_counterexample:
  "merge_gazette_text (asc ''('' @ gazette_prefix @ asc ''94/2016 i 7)'')
     (asc ''('' @ gazette_prefix @ asc ''101/2016 i 10)'') =
   asc ''(('' @ gazette_prefix @ asc ''10 i 7 i 101/2016 i 94/2016)''"
  by (simp add: gz_eval text_eval less_eq_prod_def less_prod_def)

section \<open>The amendments of Part A\<close>

text \<open>
  The alignment is copied through its name in small letters: no name when the source
  has none or is aligned left, the value of \<^verbatim>\<open>align_map\<close> for the name otherwise, which
  is none for a name that is not a key.
\<close>

definition ascii_lower :: "pystr \<Rightarrow> pystr" where
  "ascii_lower s = map (\<lambda>c. if 0x41 \<le> c \<and> c \<le> 0x5A then c + 0x20 else c) s"

definition alignment_name :: "alignment \<Rightarrow> pystr" where
  "alignment_name a =
     (case a of
        LEFT \<Rightarrow> asc ''LEFT'' | CENTER \<Rightarrow> asc ''CENTER'' | RIGHT \<Rightarrow> asc ''RIGHT''
      | JUSTIFY \<Rightarrow> asc ''JUSTIFY''
      | OTHER_ALIGNMENT n \<Rightarrow>
          (if n = 4 then asc ''DISTRIBUTE'' else if n = 5 then asc ''JUSTIFY_MED''
           else if n = 7 then asc ''JUSTIFY_HI'' else if n = 8 then asc ''JUSTIFY_LOW''
           else asc ''THAI_JUSTIFY''))"

definition alignment_truthy :: "alignment option \<Rightarrow> bool" where
  "alignment_truthy a = (case a of None \<Rightarrow> False | Some LEFT \<Rightarrow> False | Some _ \<Rightarrow> True)"

definition align_map :: "(pystr \<times> alignment) list" where
  "align_map = [(asc ''left'', LEFT), (asc ''center'', CENTER), (asc ''right'', RIGHT),
     (asc ''justify'', JUSTIFY)]"

definition set_alignment :: "para \<Rightarrow> pystr option \<Rightarrow> para" where
  "set_alignment p align_str =
     (if truthy align_str then p\<lparr>p_alignment := map_of align_map (ascii_lower (the align_str))\<rparr>
      else p)"

text \<open>
  The indents and the spacing that \<^verbatim>\<open>get_paragraph_indents\<close> and \<^verbatim>\<open>get_paragraph_spacing\<close>
  read: a dictionary with a key for every value that is set. A negative first line
  indent is read as a hanging indent. The lengths of a document are whole twentieths of
  a point, and such a length read in points and stored again is the same length.
\<close>

record indents =
  i_left :: "int option"
  i_right :: "int option"
  i_first_line :: "int option"
  i_hanging :: "int option"

definition get_paragraph_indents :: "para \<Rightarrow> indents" where
  "get_paragraph_indents p =
     \<lparr>i_left = p_left_indent p, i_right = p_right_indent p,
      i_first_line = (case p_first_line_indent p of
                        None \<Rightarrow> None | Some v \<Rightarrow> if v < 0 then None else Some v),
      i_hanging = (case p_first_line_indent p of
                     None \<Rightarrow> None | Some v \<Rightarrow> if v < 0 then Some (abs v) else None)\<rparr>"

definition set_indents :: "para \<Rightarrow> indents \<Rightarrow> para" where
  "set_indents p d =
     (let p1 = (case i_left d of None \<Rightarrow> p | Some v \<Rightarrow> p\<lparr>p_left_indent := Some v\<rparr>);
          p2 = (case i_right d of None \<Rightarrow> p1 | Some v \<Rightarrow> p1\<lparr>p_right_indent := Some v\<rparr>);
          p3 = (case i_first_line d of None \<Rightarrow> p2 | Some v \<Rightarrow> p2\<lparr>p_first_line_indent := Some v\<rparr>)
      in (case i_hanging d of None \<Rightarrow> p3 | Some v \<Rightarrow> p3\<lparr>p_first_line_indent := Some (- v)\<rparr>))"

text \<open>
  \<^verbatim>\<open>line_spacing\<close> reads a multiple of the line height as a number and every other
  spacing as a length; storing a length makes the spacing exact unless the paragraph
  has a least spacing.
\<close>

datatype line_value = Lines int | Len int

record spacing =
  s_space_before :: "int option"
  s_space_after :: "int option"
  s_line_spacing :: "line_value option"

definition get_paragraph_spacing :: "para \<Rightarrow> spacing" where
  "get_paragraph_spacing p =
     \<lparr>s_space_before = p_space_before p, s_space_after = p_space_after p,
      s_line_spacing = (case p_line_spacing p of
                          None \<Rightarrow> None
                        | Some (Multiple m) \<Rightarrow> Some (Lines m)
                        | Some (Exactly n) \<Rightarrow> Some (Len n)
                        | Some (AtLeast n) \<Rightarrow> Some (Len n))\<rparr>"

definition set_line_spacing :: "para \<Rightarrow> line_value \<Rightarrow> para" where
  "set_line_spacing p v =
     (case v of
        Lines m \<Rightarrow> p\<lparr>p_line_spacing := Some (Multiple m)\<rparr>
      | Len n \<Rightarrow>
          (case p_line_spacing p of
             Some (AtLeast k) \<Rightarrow> p\<lparr>p_line_spacing := Some (AtLeast n)\<rparr>
           | _ \<Rightarrow> p\<lparr>p_line_spacing := Some (Exactly n)\<rparr>))"

definition set_spacing :: "para \<Rightarrow> spacing \<Rightarrow> para" where
  "set_spacing p d =
     (let p1 = (case s_space_before d of None \<Rightarrow> p | Some v \<Rightarrow> p\<lparr>p_space_before := Some v\<rparr>);
          p2 = (case s_space_after d of None \<Rightarrow> p1 | Some v \<Rightarrow> p1\<lparr>p_space_after := Some v\<rparr>)
      in (case s_line_spacing d of None \<Rightarrow> p2 | Some v \<Rightarrow> set_line_spacing p2 v))"

text \<open>
  The shading that is read is the fill of the first shading element, with \<^verbatim>\<open>#\<close> before
  it; setting a shading appends a shading element.
\<close>

definition shading_of :: "pystr list \<Rightarrow> pystr option" where
  "shading_of shds =
     (case shds of [] \<Rightarrow> None | fill # _ \<Rightarrow> if fill = [] then None else Some (0x23 # fill))"

definition get_paragraph_shading :: "para \<Rightarrow> pystr option" where
  "get_paragraph_shading p = shading_of (p_shading p)"

definition get_run_shading :: "run \<Rightarrow> pystr option" where
  "get_run_shading r = shading_of (r_shading r)"

definition set_paragraph_shading :: "para \<Rightarrow> pystr \<Rightarrow> para" where
  "set_paragraph_shading p shading_hex =
     (if shading_hex = [] then p
      else p\<lparr>p_shading := p_shading p @ [dropWhile (\<lambda>c. c = 0x23) shading_hex]\<rparr>)"

definition set_run_shading :: "run \<Rightarrow> pystr \<Rightarrow> run" where
  "set_run_shading r shading_hex =
     (if shading_hex = [] then r
      else r\<lparr>r_shading := r_shading r @ [dropWhile (\<lambda>c. c = 0x23) shading_hex]\<rparr>)"

text \<open>
  \<^verbatim>\<open>deep_copy_paragraph\<close> gives the target the style and the set formatting of the
  source, removes the runs of the target (\<^verbatim>\<open>target.clear()\<close>) and adds a copy of every
  run of the source: the target ends with the text of the source.
\<close>

definition get_font_color :: "run \<Rightarrow> (nat \<times> nat \<times> nat) option" where
  "get_font_color r = r_color r"

definition copy_run :: "run \<Rightarrow> run" where
  "copy_run r =
     (let n0 = (new_run (r_text r))\<lparr>r_bold := r_bold r, r_italic := r_italic r,
                 r_underline := r_underline r, r_font_name := r_font_name r,
                 r_font_size := r_font_size r\<rparr>;
          n1 = (case get_font_color r of None \<Rightarrow> n0 | Some rgb \<Rightarrow> n0\<lparr>r_color := Some rgb\<rparr>)
      in (case get_run_shading r of None \<Rightarrow> n1 | Some shading \<Rightarrow> set_run_shading n1 shading))"

definition deep_copy_paragraph :: "para \<Rightarrow> para \<Rightarrow> para" where
  "deep_copy_paragraph source target =
     (let t1 = target\<lparr>p_style := p_style source\<rparr>;
          t2 = set_alignment t1
                 (if alignment_truthy (p_alignment source)
                  then Some (ascii_lower (alignment_name (the (p_alignment source)))) else None);
          t3 = set_indents t2 (get_paragraph_indents source);
          t4 = set_spacing t3 (get_paragraph_spacing source);
          t5 = (case get_paragraph_shading source of
                  None \<Rightarrow> t4 | Some shading \<Rightarrow> set_paragraph_shading t4 shading)
      in t5\<lparr>p_runs := map copy_run (p_runs source)\<rparr>)"

text \<open>
  \<^verbatim>\<open>Document.paragraphs\<close> holds the paragraphs among the blocks, tables left out, and
  indexing it past its end raises \<^verbatim>\<open>IndexError\<close>. Removing the element of the \<open>k\<close>-th
  paragraph from its parent removes that block.
\<close>

definition paragraphs :: "document \<Rightarrow> para list" where
  "paragraphs doc = concat (map (\<lambda>b. case b of Paragraph p \<Rightarrow> [p] | Table t \<Rightarrow> []) doc)"

fun remove_paragraph :: "nat \<Rightarrow> document \<Rightarrow> document" where
  "remove_paragraph k [] = []"
| "remove_paragraph k (Table t # bs) = Table t # remove_paragraph k bs"
| "remove_paragraph 0 (Paragraph p # bs) = bs"
| "remove_paragraph (Suc k) (Paragraph p # bs) = Paragraph p # remove_paragraph k bs"

datatype part_a_error = IndexError | Uncaught exn

definition old_lines_of :: "document \<Rightarrow> nat \<Rightarrow> nat \<Rightarrow> part_a_error + pystr" where
  "old_lines_of updated_doc s e =
     (if list_all (\<lambda>k. k < length (paragraphs updated_doc)) [s..<e]
      then Inr (py_join [0xA] (map (\<lambda>k. p_text (paragraphs updated_doc ! k)) [s..<e]))
      else Inl IndexError)"

fun remove_old :: "nat list \<Rightarrow> document \<Rightarrow> part_a_error + document" where
  "remove_old [] updated_doc = Inr updated_doc"
| "remove_old (k # ks) updated_doc =
     (if k < length (paragraphs updated_doc) then remove_old ks (remove_paragraph k updated_doc)
      else Inl IndexError)"

text \<open>
  The lines of the revised article: \<^verbatim>\<open>add_paragraph(line)\<close> appends a paragraph after the
  last block of the document; the paragraph of the original with the index \<open>s + i\<close>, when
  there is one, is copied over it; a line that is an article header is centred and set
  in bold Arial of 12 points.
\<close>

definition title_format :: "para \<Rightarrow> para" where
  "title_format new_p =
     (set_alignment new_p (Some (asc ''center'')))\<lparr>p_runs :=
        map (\<lambda>r. r\<lparr>r_bold := Some True, r_font_name := Some (asc ''Arial''),
                    r_font_size := Some (Pt 12)\<rparr>) (p_runs (set_alignment new_p (Some (asc ''center''))))\<rparr>"

definition new_block :: "document \<Rightarrow> nat \<Rightarrow> nat \<times> pystr \<Rightarrow> block" where
  "new_block orig s il =
     (case il of (i, line) \<Rightarrow>
        (let new_p = new_para line;
             original_format_idx = s + i;
             new_p1 = (if original_format_idx < length (paragraphs orig)
                       then deep_copy_paragraph (paragraphs orig ! original_format_idx) new_p
                       else new_p)
         in Paragraph (if ARTICLE_RE_match line then title_format new_p1 else new_p1)))"

definition insert_new :: "document \<Rightarrow> nat \<Rightarrow> document \<Rightarrow> nat \<times> pystr \<Rightarrow> document" where
  "insert_new orig s updated_doc il = updated_doc @ [new_block orig s il]"

definition aid_of :: "pystr \<Rightarrow> pystr" where
  "aid_of article_num = 0x10C # asc ''lan '' @ article_num"

definition amend_match ::
  "service \<Rightarrow> document \<Rightarrow> (pystr \<rightharpoonup> nat \<times> nat) \<Rightarrow> pystr \<Rightarrow> document \<Rightarrow> pystr \<Rightarrow>
   part_a_error + document" where
  "amend_match client orig arts inst updated_doc article_num =
     (case arts (aid_of article_num) of
        None \<Rightarrow> Inr updated_doc
      | Some (s, e) \<Rightarrow>
          (case old_lines_of updated_doc s e of
             Inl err \<Rightarrow> Inl err
           | Inr old_lines \<Rightarrow>
               (case apply_amendment_text client old_lines inst of
                  Inl x \<Rightarrow> Inl (Uncaught x)
                | Inr (new_lines, calls) \<Rightarrow>
                    (case remove_old (rev [s..<e]) updated_doc of
                       Inl err \<Rightarrow> Inl err
                     | Inr d \<Rightarrow> Inr (foldl (insert_new orig s) d (enumerate 0 new_lines))))))"

text \<open>
  \<^verbatim>\<open>CHANGE_RE.findall(inst)\<close> gives the article number and the paragraph number of every
  match, from left to right, none overlapping another. The digits are taken greedily:
  the character after them must be the full stop.
\<close>

definition change_head :: pystr where
  "change_head = 0x10D # asc ''lana ''"

definition change_mid :: pystr where
  "change_mid = asc ''. stav ''"

definition change_tail :: pystr where
  "change_tail = asc ''. Zakona o ra'' @ [0x10D] @ asc ''unovodstvu''"

definition CHANGE_RE_match :: "pystr \<Rightarrow> ((pystr \<times> pystr) \<times> pystr) option" where
  "CHANGE_RE_match s =
     (if starts_with change_head s then
        (let r1 = drop (length change_head) s;
             d1 = takeWhile py_isdecimal r1;
             r2 = dropWhile py_isdecimal r1
         in if d1 \<noteq> [] \<and> starts_with change_mid r2 then
              (let r3 = drop (length change_mid) r2;
                   d2 = takeWhile py_isdecimal r3;
                   r4 = dropWhile py_isdecimal r3
               in if d2 \<noteq> [] \<and> starts_with change_tail r4
                  then Some ((d1, d2), drop (length change_tail) r4) else None)
            else None)
      else None)"

lemma CHANGE_RE_match_shorter:
  assumes "CHANGE_RE_match s = Some (g, rest)"
  shows "length rest < length s"
proof -
  have h: "starts_with change_head s"
    using assms by (simp add: CHANGE_RE_match_def split: if_splits)
  hence "s \<noteq> []"
    by (auto simp add: change_head_def)
  hence a: "length (drop (length change_head) s) < length s"
    by (simp add: change_head_def)
  define r1 where "r1 = drop (length change_head) s"
  define r2 where "r2 = dropWhile py_isdecimal r1"
  define r3 where "r3 = drop (length change_mid) r2"
  define r4 where "r4 = dropWhile py_isdecimal r3"
  have "rest = drop (length change_tail) r4"
    using assms unfolding r4_def r3_def r2_def r1_def
    by (simp add: CHANGE_RE_match_def Let_def split: if_splits)
  hence "length rest \<le> length r4"
    by simp
  also have "\<dots> \<le> length r3"
    unfolding r4_def by (rule length_dropWhile_le)
  also have "\<dots> \<le> length r2"
    unfolding r3_def by simp
  also have "\<dots> \<le> length r1"
    unfolding r2_def by (rule length_dropWhile_le)
  finally have "length rest \<le> length (drop (length change_head) s)"
    unfolding r1_def .
  with a show ?thesis
    by simp
qed

function CHANGE_RE_findall :: "pystr \<Rightarrow> (pystr \<times> pystr) list" where
  "CHANGE_RE_findall [] = []"
| "CHANGE_RE_findall (c # cs) =
     (case CHANGE_RE_match (c # cs) of
        Some (g, rest) \<Rightarrow> g # CHANGE_RE_findall rest
      | None \<Rightarrow> CHANGE_RE_findall cs)"
  by pat_completeness auto
termination
  by (relation "measure length") (auto dest: CHANGE_RE_match_shorter)

text \<open>
  The loop of \<^verbatim>\<open>process_part_a\<close> over the instructions of the amending document and their
  matches. The spans are the ones \<^verbatim>\<open>extract_articles\<close> gave before the loop.
\<close>

definition ceases :: pystr where
  "ceases = asc ''prestaju da va'' @ [0x17E] @ asc ''e''"

definition amendments :: "document \<Rightarrow> pystr list" where
  "amendments amend_doc =
     map (\<lambda>p. py_strip (p_text p)) (filter (\<lambda>p. py_contains ceases (p_text p)) (paragraphs amend_doc))"

fun amend_matches ::
  "service \<Rightarrow> document \<Rightarrow> (pystr \<rightharpoonup> nat \<times> nat) \<Rightarrow> pystr \<Rightarrow> document \<Rightarrow>
   (pystr \<times> pystr) list \<Rightarrow> part_a_error + document" where
  "amend_matches client orig arts inst updated_doc [] = Inr updated_doc"
| "amend_matches client orig arts inst updated_doc ((article_num, stav_num) # ms) =
     (case amend_match client orig arts inst updated_doc article_num of
        Inl err \<Rightarrow> Inl err
      | Inr d \<Rightarrow> amend_matches client orig arts inst d ms)"

fun amend_all ::
  "service \<Rightarrow> document \<Rightarrow> (pystr \<rightharpoonup> nat \<times> nat) \<Rightarrow> document \<Rightarrow> pystr list \<Rightarrow>
   part_a_error + document" where
  "amend_all client orig arts updated_doc [] = Inr updated_doc"
| "amend_all client orig arts updated_doc (inst # insts) =
     (case amend_matches client orig arts inst updated_doc (CHANGE_RE_findall inst) of
        Inl err \<Rightarrow> Inl err
      | Inr d \<Rightarrow> amend_all client orig arts d insts)"

definition apply_amendments :: "service \<Rightarrow> document \<Rightarrow> document \<Rightarrow> document \<Rightarrow> part_a_error + document" where
  "apply_amendments client orig amend_doc updated_doc =
     amend_all client orig (extract_articles updated_doc) updated_doc (amendments amend_doc)"


text \<open>
  A law of two articles, the instruction that the first paragraph of article 1 ceases to
  be valid, and a service that answers with the header, marked, and the second
  paragraph.
\<close>

definition law_orig :: document where
  "law_orig = map (\<lambda>t. Paragraph (new_para t)) [Clan ''1'', asc ''a'', asc ''b'', Clan ''2'', asc ''c'']"

definition law_inst :: pystr where
  "law_inst = change_head @ asc ''1. stav 1'' @ change_tail @ asc '' '' @ ceases"

definition law_amendment :: document where
  "law_amendment = [Paragraph (new_para law_inst)]"

definition editor_service :: service where
  "editor_service prompt i = Inr (Clan ''1*'' @ [0xA] @ asc ''b'')"

lemmas part_a_eval = law_orig_def law_inst_def law_amendment_def editor_service_def
  change_head_def change_mid_def change_tail_def ceases_def paragraphs_def

lemma ex_amendments: "amendments law_amendment = [law_inst]"
  by (simp add: amendments_def part_a_eval para_eval text_eval)

lemma ex_findall: "CHANGE_RE_findall law_inst = [(asc ''1'', asc ''1'')]"
  by (simp add: CHANGE_RE_match_def Let_def part_a_eval text_eval)

lemma ex_articles: "extract_articles law_orig (aid_of (asc ''1'')) = Some (0, 3)"
  by (simp add: aid_of_def law_orig_def ea_eval para_eval text_eval)

lemma ex_old_lines:
  "old_lines_of law_orig 0 3 = Inr (Clan ''1'' @ [0xA] @ asc ''a'' @ [0xA] @ asc ''b'')"
  by (simp add: old_lines_of_def part_a_eval para_eval upt_rec)

lemma ex_reply:
  "apply_amendment_text editor_service old_text inst = Inr ([Clan ''1*'', asc ''b''], 1)"
  by (simp add: apply_amendment_text_def attempt_once_def validate_def response_lines_def
      py_splitlines_def line_boundaries_def editor_service_def star_def Clan_def text_eval
      numeral_3_eq_3)

lemma ex_remove:
  "remove_old (rev [0..<3]) law_orig = Inr [Paragraph (new_para (Clan ''2'')), Paragraph (new_para (asc ''c''))]"
  by (simp add: part_a_eval upt_rec)

lemma ex_insert:
  "map block_text (foldl (insert_new law_orig 0)
       [Paragraph (new_para (Clan ''2'')), Paragraph (new_para (asc ''c''))]
       (enumerate 0 [Clan ''1*'', asc ''b''])) = [Clan ''2'', asc ''c'', Clan ''1'', asc ''a'']"
  by (simp add: insert_new_def new_block_def deep_copy_paragraph_def copy_run_def title_format_def
      set_alignment_def set_indents_def set_spacing_def get_paragraph_indents_def
      get_paragraph_spacing_def get_paragraph_shading_def get_run_shading_def shading_of_def
      get_font_color_def alignment_truthy_def truthy_def Let_def part_a_eval para_eval text_eval)


definition only_paragraphs :: "document \<Rightarrow> bool" where
  "only_paragraphs doc = list_all (\<lambda>b. case b of Paragraph p \<Rightarrow> True | Table t \<Rightarrow> False) doc"

lemma only_paragraphs_Cons:
  "only_paragraphs (b # bs) = ((\<exists>p. b = Paragraph p) \<and> only_paragraphs bs)"
  by (cases b) (simp_all add: only_paragraphs_def)

lemma length_paragraphs: "only_paragraphs doc \<Longrightarrow> length (paragraphs doc) = length doc"
  by (induction doc) (auto simp add: paragraphs_def only_paragraphs_def split: block.splits)

lemma remove_paragraph_only:
  "only_paragraphs doc \<Longrightarrow> k < length doc \<Longrightarrow>
   remove_paragraph k doc = take k doc @ drop (Suc k) doc"
proof (induction doc arbitrary: k)
  case Nil
  then show ?case by simp
next
  case (Cons b bs)
  then obtain p where b: "b = Paragraph p" and bs: "only_paragraphs bs"
    by (auto simp add: only_paragraphs_Cons)
  show ?case
  proof (cases k)
    case 0
    then show ?thesis by (simp add: b)
  next
    case (Suc k')
    with Cons.prems have "k' < length bs" by simp
    with Cons.IH bs have "remove_paragraph k' bs = take k' bs @ drop (Suc k') bs" by simp
    then show ?thesis by (simp add: b Suc)
  qed
qed

lemma only_paragraphs_remove:
  "only_paragraphs doc \<Longrightarrow> only_paragraphs (take k doc @ drop j doc)"
  by (auto simp add: only_paragraphs_def list_all_iff dest: in_set_takeD in_set_dropD)

lemma remove_old_span:
  "only_paragraphs doc \<Longrightarrow> s \<le> e \<Longrightarrow> e \<le> length doc \<Longrightarrow>
   remove_old (rev [s..<e]) doc = Inr (take s doc @ drop e doc)"
proof (induction e arbitrary: doc)
  case 0
  then show ?case by simp
next
  case (Suc e)
  show ?case
  proof (cases "s = Suc e")
    case True
    then show ?thesis by simp
  next
    case False
    with Suc.prems have se: "s \<le> e" by simp
    let ?d = "take e doc @ drop (Suc e) doc"
    have r: "remove_paragraph e doc = ?d"
      using Suc.prems by (simp add: remove_paragraph_only)
    have o: "only_paragraphs ?d"
      using Suc.prems by (simp add: only_paragraphs_remove)
    have l: "e \<le> length ?d"
      using Suc.prems by simp
    have "remove_old (rev [s..<Suc e]) doc = remove_old (rev [s..<e]) ?d"
      using se Suc.prems by (simp add: length_paragraphs r)
    also have "\<dots> = Inr (take s ?d @ drop e ?d)"
      using o se l by (rule Suc.IH)
    also have "take s ?d @ drop e ?d = take s doc @ drop (Suc e) doc"
      using se Suc.prems by (simp add: min_def)
    finally show ?thesis .
  qed
qed

lemma foldl_insert_new:
  "foldl (insert_new orig s) d ils = d @ map (new_block orig s) ils"
  by (induction ils arbitrary: d) (simp_all add: insert_new_def)

lemma old_lines_of_defined:
  "only_paragraphs doc \<Longrightarrow> e \<le> length doc \<Longrightarrow>
   old_lines_of doc s e = Inr (py_join [0xA] (map (\<lambda>k. p_text (paragraphs doc ! k)) [s..<e]))"
  by (simp add: old_lines_of_def length_paragraphs list_all_iff)

text \<open>
  Claim C1 does not hold of the code. For a document of paragraphs and an instruction
  that matches an article with the span from \<open>s\<close> to \<open>e\<close>, the result is the document
  without the blocks of the span, followed by the paragraphs of the revised article:
  they stand after the last block, not where the span was.
\<close>

theorem amend_match_appends:
  assumes "arts (aid_of article_num) = Some (s, e)"
    and "only_paragraphs updated_doc" and "s \<le> e" and "e \<le> length updated_doc"
    and "apply_amendment_text client
           (py_join [0xA] (map (\<lambda>k. p_text (paragraphs updated_doc ! k)) [s..<e])) inst =
         Inr (new_lines, calls)"
  shows "amend_match client orig arts inst updated_doc article_num =
         Inr (take s updated_doc @ drop e updated_doc @
              map (new_block orig s) (enumerate 0 new_lines))"
  using assms
  by (simp add: amend_match_def old_lines_of_defined remove_old_span foldl_insert_new)

text \<open>
  The law of two articles: article 2 comes first in the result, and the paragraphs that
  follow it hold the text of the first two paragraphs of the original, not the lines of
  the answer.
\<close>

theorem amend_match_appends_witness:
  "map_sum id (map block_text)
     (amend_match editor_service law_orig (extract_articles law_orig) law_inst law_orig (asc ''1'')) =
   Inr [Clan ''2'', asc ''c'', Clan ''1'', asc ''a'']"
proof -
  have o: "only_paragraphs law_orig"
    by (simp add: only_paragraphs_def law_orig_def)
  have l: "3 \<le> length law_orig"
    by (simp add: law_orig_def)
  have z: "(0::nat) \<le> 3"
    by simp
  have "amend_match editor_service law_orig (extract_articles law_orig) law_inst law_orig (asc ''1'') =
      Inr (take 0 law_orig @ drop 3 law_orig @
           map (new_block law_orig 0) (enumerate 0 [Clan ''1*'', asc ''b'']))"
    using amend_match_appends [where client = editor_service and inst = law_inst
        and orig = law_orig and arts = "extract_articles law_orig" and updated_doc = law_orig
        and article_num = "asc ''1''" and s = 0 and e = 3, OF ex_articles o z l ex_reply] .
  also have "\<dots> = Inr (foldl (insert_new law_orig 0) (drop 3 law_orig)
      (enumerate 0 [Clan ''1*'', asc ''b'']))"
    by (simp only: foldl_insert_new take_0 append_Nil)
  also have "drop 3 law_orig = [Paragraph (new_para (Clan ''2'')), Paragraph (new_para (asc ''c''))]"
    by (simp add: law_orig_def)
  finally show ?thesis
    by (simp only: map_sum.simps ex_insert id_apply)
qed

text \<open>
  The same for the whole loop.
\<close>

lemma ex_amend:
  "amend_match editor_service law_orig (extract_articles law_orig) law_inst law_orig (asc ''1'') =
     Inr (foldl (insert_new law_orig 0)
       [Paragraph (new_para (Clan ''2'')), Paragraph (new_para (asc ''c''))]
       (enumerate 0 [Clan ''1*'', asc ''b'']))"
  by (simp only: amend_match_def ex_articles ex_old_lines ex_reply ex_remove
      option.case prod.case sum.case)

theorem process_part_a_failing_input:
  "map_sum id (map block_text) (apply_amendments editor_service law_orig law_amendment law_orig) =
   Inr [Clan ''2'', asc ''c'', Clan ''1'', asc ''a'']"
proof -
  have "apply_amendments editor_service law_orig law_amendment law_orig =
      amend_matches editor_service law_orig (extract_articles law_orig) law_inst law_orig
        [(asc ''1'', asc ''1'')]"
    unfolding apply_amendments_def ex_amendments
    by (simp add: ex_findall split: sum.splits)
  also have "\<dots> = Inr (foldl (insert_new law_orig 0)
       [Paragraph (new_para (Clan ''2'')), Paragraph (new_para (asc ''c''))]
       (enumerate 0 [Clan ''1*'', asc ''b'']))"
    by (simp only: amend_matches.simps ex_amend sum.case)
  finally show ?thesis
    by (simp only: map_sum.simps ex_insert id_apply)
qed

end
